theory Spec2Isabelle
  imports Main "HOL-Library.Word" "HOL-Library.AList"
begin

unbundle bit_operations_syntax

section \<open>Strings\<close>

text \<open>
  A JavaScript string is a sequence of UTF-16 code units.  Task ids, dependency ids and
  the JSON text stored in the database are all values of this type.
\<close>

type_synonym js_string = "16 word list"

section \<open>The task model (src/models/task.model.ts)\<close>

datatype TaskStatus = QUEUED | RUNNING | COMPLETED | FAILED

text \<open>
  Interface \<open>Task\<close>.  The fields \<open>id\<close> and \<open>type\<close> are written \<open>task_id\<close> and
  \<open>task_type\<close>; the two dates are milliseconds since the epoch.  The type of
  \<open>dependencies\<close> is a parameter: it is \<open>string[]\<close>, that is \<open>js_string list\<close>, as the
  interface declares it, and it is the unchecked result of \<open>JSON.parse\<close> in the tasks
  the scheduler builds from database rows.
\<close>

record 'd Task =
  task_id :: js_string
  task_type :: js_string
  duration_ms :: int
  status :: TaskStatus
  dependencies :: 'd
  created_at :: int
  updated_at :: int

section \<open>The dependency resolver (core/dependency-resolver.ts)\<close>

record DependencyResolver =
  completedTaskIds :: "js_string set"

definition new_DependencyResolver :: DependencyResolver where
  "new_DependencyResolver = \<lparr>completedTaskIds = {}\<rparr>"

definition registerCompletedTask :: "js_string \<Rightarrow> DependencyResolver \<Rightarrow> DependencyResolver" where
  "registerCompletedTask taskId r = r\<lparr>completedTaskIds := insert taskId (completedTaskIds r)\<rparr>"

text \<open>
  \<open>isEligibleToRun\<close>: the status test comes first, then the test for an empty
  dependency array, then \<open>every\<close> over the dependency ids.
\<close>

definition isEligibleToRun :: "DependencyResolver \<Rightarrow> js_string list Task \<Rightarrow> bool" where
  "isEligibleToRun r task =
     (if status task = RUNNING \<or> status task = COMPLETED then False
      else if dependencies task = [] then True
      else list_all (\<lambda>depId. depId \<in> completedTaskIds r) (dependencies task))"

definition getEligibleTasks ::
  "DependencyResolver \<Rightarrow> js_string list Task list \<Rightarrow> js_string list Task list" where
  "getEligibleTasks r tasks = filter (isEligibleToRun r) tasks"

definition reset :: "DependencyResolver \<Rightarrow> DependencyResolver" where
  "reset r = r\<lparr>completedTaskIds := {}\<rparr>"

definition loadCompletedTasks :: "js_string list \<Rightarrow> DependencyResolver \<Rightarrow> DependencyResolver" where
  "loadCompletedTasks ids r = foldl (\<lambda>q i. q\<lparr>completedTaskIds := insert i (completedTaskIds q)\<rparr>) r ids"

section \<open>The worker pool (core/worker-pool.ts)\<close>

text \<open>
  The pool is an event emitter.  Listeners run synchronously inside \<open>emit\<close>; the
  scheduler's listeners never call back into the pool before they return, so an emission
  is modelled by appending the event to a log, together with what a listener reads at that
  moment through \<open>getActiveTaskCount()\<close> and \<open>getRunningTaskIds()\<close>.
\<close>

datatype 'd pool_event =
  TaskStarted "'d Task" | TaskCompleted "'d Task" | TaskCancelled js_string

record 'd emission =
  event :: "'d pool_event"
  seen_count :: int
  seen_ids :: "js_string list"

text \<open>
  \<open>runningTasks\<close> is a JavaScript \<open>Map\<close> from task id to timer handle, kept as an
  association list in insertion order: \<open>AList.update\<close> is \<open>Map.set\<close> (an existing key
  keeps its place, a new key goes to the end) and \<open>AList.delete\<close> is \<open>Map.delete\<close>.
  \<open>timeouts\<close> holds the timers this pool has armed with \<open>setTimeout\<close> that have neither
  fired nor been cleared, each with the task its callback closes over.  The counters are
  JavaScript numbers that only ever hold small integers, hence \<open>int\<close>.
\<close>

record 'd WorkerPool =
  activeTaskCount :: int
  maxConcurrentTasks :: int
  runningTasks :: "(js_string \<times> nat) list"
  timeouts :: "(nat \<times> 'd Task) list"
  nextTimeout :: nat
  emitted :: "'d emission list"

definition new_WorkerPool :: "int \<Rightarrow> 'd WorkerPool" where
  "new_WorkerPool m =
     \<lparr>activeTaskCount = 0, maxConcurrentTasks = m, runningTasks = [],
      timeouts = [], nextTimeout = 0, emitted = []\<rparr>"

definition hasCapacity :: "'d WorkerPool \<Rightarrow> bool" where
  "hasCapacity p = (activeTaskCount p < maxConcurrentTasks p)"

definition getActiveTaskCount :: "'d WorkerPool \<Rightarrow> int" where
  "getActiveTaskCount p = activeTaskCount p"

definition getRunningTaskIds :: "'d WorkerPool \<Rightarrow> js_string list" where
  "getRunningTaskIds p = map fst (runningTasks p)"

definition emit :: "'d pool_event \<Rightarrow> 'd WorkerPool \<Rightarrow> 'd WorkerPool" where
  "emit e p =
     p\<lparr>emitted := emitted p @
        [\<lparr>event = e, seen_count = getActiveTaskCount p, seen_ids = getRunningTaskIds p\<rparr>]\<rparr>"

definition setTimeout :: "'d Task \<Rightarrow> 'd WorkerPool \<Rightarrow> nat \<times> 'd WorkerPool" where
  "setTimeout task p =
     (nextTimeout p,
      p\<lparr>timeouts := timeouts p @ [(nextTimeout p, task)], nextTimeout := Suc (nextTimeout p)\<rparr>)"

definition clearTimeout :: "nat \<Rightarrow> 'd WorkerPool \<Rightarrow> 'd WorkerPool" where
  "clearTimeout h p = p\<lparr>timeouts := AList.delete h (timeouts p)\<rparr>"

text \<open>
  \<open>executeTask\<close>, statement by statement: the two rejections; then the counter is
  incremented, \<open>taskStarted\<close> is emitted, the timer is armed, and last the handle is
  stored in \<open>runningTasks\<close>.
\<close>

definition executeTask :: "'d Task \<Rightarrow> 'd WorkerPool \<Rightarrow> bool \<times> 'd WorkerPool" where
  "executeTask task p =
     (if \<not> hasCapacity p then (False, p)
      else if map_of (runningTasks p) (task_id task) \<noteq> None then (False, p)
      else
        let p1 = p\<lparr>activeTaskCount := activeTaskCount p + 1\<rparr>;
            p2 = emit (TaskStarted task) p1;
            (h, p3) = setTimeout task p2;
            p4 = p3\<lparr>runningTasks := AList.update (task_id task) h (runningTasks p3)\<rparr>
        in (True, p4))"

text \<open>
  The callback handed to \<open>setTimeout\<close> in \<open>executeTask\<close>.  It runs only for a timer that
  is still pending; a timer that was cleared or has already fired never runs.
\<close>

definition timeoutFires :: "nat \<Rightarrow> 'd WorkerPool \<Rightarrow> 'd WorkerPool" where
  "timeoutFires h p =
     (case map_of (timeouts p) h of
        None \<Rightarrow> p
      | Some task \<Rightarrow>
          let p1 = p\<lparr>timeouts := AList.delete h (timeouts p)\<rparr>;
              p2 = p1\<lparr>runningTasks := AList.delete (task_id task) (runningTasks p1)\<rparr>;
              p3 = p2\<lparr>activeTaskCount := activeTaskCount p2 - 1\<rparr>
          in emit (TaskCompleted task) p3)"

definition cancelTask :: "js_string \<Rightarrow> 'd WorkerPool \<Rightarrow> bool \<times> 'd WorkerPool" where
  "cancelTask taskId p =
     (case map_of (runningTasks p) taskId of
        None \<Rightarrow> (False, p)
      | Some h \<Rightarrow>
          let p1 = clearTimeout h p;
              p2 = p1\<lparr>runningTasks := AList.delete taskId (runningTasks p1)\<rparr>;
              p3 = p2\<lparr>activeTaskCount := activeTaskCount p2 - 1\<rparr>;
              p4 = emit (TaskCancelled taskId) p3
          in (True, p4))"

definition shutdown :: "'d WorkerPool \<Rightarrow> 'd WorkerPool" where
  "shutdown p =
     (let p1 = foldl (\<lambda>q (taskId, h). emit (TaskCancelled taskId) (clearTimeout h q))
                 p (runningTasks p)
      in p1\<lparr>runningTasks := [], activeTaskCount := 0\<rparr>)"

text \<open>The operations a client or the event loop can perform on a pool, and their runs.\<close>

datatype 'd pool_op =
  ExecuteTask "'d Task" | TimeoutFires nat | CancelTask js_string | Shutdown

fun pool_step :: "'d WorkerPool \<Rightarrow> 'd pool_op \<Rightarrow> 'd WorkerPool" where
  "pool_step p (ExecuteTask task) = snd (executeTask task p)"
| "pool_step p (TimeoutFires h) = timeoutFires h p"
| "pool_step p (CancelTask taskId) = snd (cancelTask taskId p)"
| "pool_step p Shutdown = shutdown p"

definition pool_run :: "'d WorkerPool \<Rightarrow> 'd pool_op list \<Rightarrow> 'd WorkerPool" where
  "pool_run p ops = foldl pool_step p ops"

text \<open>Concrete tasks used to exercise the definitions.\<close>

definition mkTask :: "js_string \<Rightarrow> TaskStatus \<Rightarrow> js_string list \<Rightarrow> js_string list Task" where
  "mkTask i st deps =
     \<lparr>task_id = i, task_type = [], duration_ms = 100, status = st, dependencies = deps,
      created_at = 0, updated_at = 0\<rparr>"

text \<open>
  Two invariants of the pool.  \<open>bounded\<close>: the counter, and every count a listener has
  been shown, is at most the configured maximum.  \<open>consistent\<close>: the ids in
  \<open>runningTasks\<close> are distinct, the counter is the number of entries, and every pending
  timer belongs to the entry of the task it will complete.
\<close>

definition bounded :: "'d WorkerPool \<Rightarrow> bool" where
  "bounded p =
     (activeTaskCount p \<le> maxConcurrentTasks p \<and> 0 \<le> maxConcurrentTasks p \<and>
      (\<forall>e \<in> set (emitted p). seen_count e \<le> maxConcurrentTasks p))"

definition consistent :: "'d WorkerPool \<Rightarrow> bool" where
  "consistent p =
     (distinct (map fst (runningTasks p)) \<and>
      activeTaskCount p = int (length (runningTasks p)) \<and>
      (\<forall>(h, t) \<in> set (timeouts p). map_of (runningTasks p) (task_id t) = Some h))"

section \<open>JSON text (the built-ins \<open>JSON.stringify\<close> and \<open>JSON.parse\<close>)\<close>

text \<open>
  The dependency list of a task is stored as JSON text.  \<open>json\<close> is the value
  \<open>JSON.parse\<close> returns.  A number is kept as its source text, since no numeric value
  is ever inspected; an object is kept as its members, a later duplicate key overriding an
  earlier one.
\<close>

datatype json =
  JNull | JBool bool | JNumber js_string | JString js_string
| JArray "json list" | JObject "(js_string \<times> json) list"

text \<open>
  Code units are written as numbers: \<open>0x22\<close> is the double quote, \<open>0x5C\<close> the
  backslash, \<open>0x2F\<close> the slash, \<open>0x5B\<close> and \<open>0x5D\<close> the square brackets,
  \<open>0x7B\<close> and \<open>0x7D\<close> the braces, \<open>0x2C\<close> the comma, \<open>0x3A\<close> the colon,
  \<open>0x2D\<close>, \<open>0x2B\<close> and \<open>0x2E\<close> minus, plus and full stop, \<open>0x30\<close> to
  \<open>0x39\<close> the digits, \<open>0x41\<close> and \<open>0x61\<close> the letters A and a.
\<close>

text \<open>
  \<open>JSON.stringify\<close> of an array of strings (ECMA-262, QuoteJSONString and
  SerializeJSONArray without indentation).  The two-character escapes come from the fixed
  table; any other code unit below space and any unpaired surrogate becomes a lower-case
  \<open>\u\<close> escape; a well-formed surrogate pair and every other code unit is copied.
\<close>

definition nibble :: "nat \<Rightarrow> 16 word \<Rightarrow> 16 word" where
  "nibble k c = take_bit 4 (drop_bit k c)"

definition hexDigit :: "16 word \<Rightarrow> 16 word" where
  "hexDigit n = (if n < 10 then 0x30 + n else 0x61 + (n - 10))"

definition UnicodeEscape :: "16 word \<Rightarrow> js_string" where
  "UnicodeEscape c =
     [0x5C, 0x75, hexDigit (nibble 12 c), hexDigit (nibble 8 c), hexDigit (nibble 4 c),
      hexDigit (nibble 0 c)]"

definition isLeadingSurrogate :: "16 word \<Rightarrow> bool" where
  "isLeadingSurrogate c = (0xD800 \<le> c \<and> c \<le> 0xDBFF)"

definition isTrailingSurrogate :: "16 word \<Rightarrow> bool" where
  "isTrailingSurrogate c = (0xDC00 \<le> c \<and> c \<le> 0xDFFF)"

definition quoteUnit :: "16 word \<Rightarrow> js_string" where
  "quoteUnit c =
     (if c = 0x08 then [0x5C, 0x62]
      else if c = 0x09 then [0x5C, 0x74]
      else if c = 0x0A then [0x5C, 0x6E]
      else if c = 0x0C then [0x5C, 0x66]
      else if c = 0x0D then [0x5C, 0x72]
      else if c = 0x22 then [0x5C, 0x22]
      else if c = 0x5C then [0x5C, 0x5C]
      else if c < 0x20 \<or> isLeadingSurrogate c \<or> isTrailingSurrogate c then UnicodeEscape c
      else [c])"

fun quoteUnits :: "js_string \<Rightarrow> js_string" where
  "quoteUnits [] = []"
| "quoteUnits [c] = quoteUnit c"
| "quoteUnits (c # d # cs) =
     (if isLeadingSurrogate c \<and> isTrailingSurrogate d then c # d # quoteUnits cs
      else quoteUnit c @ quoteUnits (d # cs))"

definition QuoteJSONString :: "js_string \<Rightarrow> js_string" where
  "QuoteJSONString s = [0x22] @ quoteUnits s @ [0x22]"

fun joinComma :: "js_string list \<Rightarrow> js_string" where
  "joinComma [] = []"
| "joinComma [x] = x"
| "joinComma (x # y # ys) = x @ [0x2C] @ joinComma (y # ys)"

definition JSON_stringify :: "js_string list \<Rightarrow> js_string" where
  "JSON_stringify xs = [0x5B] @ joinComma (map QuoteJSONString xs) @ [0x5D]"

text \<open>
  \<open>JSON.parse\<close>: the JSON grammar (white space, strings with their escapes, numbers,
  the three literals, arrays, objects), read left to right.  Each parser returns the value
  and the unread rest of the text, or \<open>None\<close> where \<open>JSON.parse\<close> throws a
  \<open>SyntaxError\<close>.
\<close>

definition isWhitespace :: "16 word \<Rightarrow> bool" where
  "isWhitespace c = (c = 0x20 \<or> c = 0x09 \<or> c = 0x0A \<or> c = 0x0D)"

fun skipWhitespace :: "js_string \<Rightarrow> js_string" where
  "skipWhitespace [] = []"
| "skipWhitespace (c # cs) = (if isWhitespace c then skipWhitespace cs else c # cs)"

definition hexValue :: "16 word \<Rightarrow> 16 word option" where
  "hexValue c =
     (if 0x30 \<le> c \<and> c \<le> 0x39 then Some (c - 0x30)
      else if 0x61 \<le> c \<and> c \<le> 0x66 then Some (c - 0x61 + 10)
      else if 0x41 \<le> c \<and> c \<le> 0x46 then Some (c - 0x41 + 10)
      else None)"

definition hex4 :: "16 word \<Rightarrow> 16 word \<Rightarrow> 16 word \<Rightarrow> 16 word \<Rightarrow> 16 word option" where
  "hex4 a b c d =
     (case (hexValue a, hexValue b, hexValue c, hexValue d) of
        (Some x3, Some x2, Some x1, Some x0) \<Rightarrow>
          Some (push_bit 12 x3 OR push_bit 8 x2 OR push_bit 4 x1 OR x0)
      | _ \<Rightarrow> None)"

definition simpleEscape :: "16 word \<Rightarrow> 16 word option" where
  "simpleEscape e =
     (if e = 0x22 then Some 0x22
      else if e = 0x5C then Some 0x5C
      else if e = 0x2F then Some 0x2F
      else if e = 0x62 then Some 0x08
      else if e = 0x66 then Some 0x0C
      else if e = 0x6E then Some 0x0A
      else if e = 0x72 then Some 0x0D
      else if e = 0x74 then Some 0x09
      else None)"

definition consUnit :: "16 word \<Rightarrow> (js_string \<times> js_string) option \<Rightarrow> (js_string \<times> js_string) option" where
  "consUnit c r = (case r of None \<Rightarrow> None | Some (s, rest) \<Rightarrow> Some (c # s, rest))"

fun parseChars :: "js_string \<Rightarrow> (js_string \<times> js_string) option" where
  "parseChars [] = None"
| "parseChars (c # cs) =
     (if c = 0x22 then Some ([], cs)
      else if c = 0x5C then
        (case cs of
           [] \<Rightarrow> None
         | e # es \<Rightarrow>
             if e = 0x75 then
               (case es of
                  h3 # h2 # h1 # h0 # r \<Rightarrow>
                    (case hex4 h3 h2 h1 h0 of
                       None \<Rightarrow> None
                     | Some u \<Rightarrow> consUnit u (parseChars r))
                | _ \<Rightarrow> None)
             else
               (case simpleEscape e of
                  None \<Rightarrow> None
                | Some u \<Rightarrow> consUnit u (parseChars es)))
      else if c < 0x20 then None
      else consUnit c (parseChars cs))"

text \<open>
  The errors that are thrown in the code modelled here: by \<open>JSON.parse\<close>, by the
  resolver on a value that is not an array, and by the store client.
\<close>

datatype error = SyntaxError | TypeError | RecordNotFound | ConnectionError

definition isDigit :: "16 word \<Rightarrow> bool" where
  "isDigit c = (0x30 \<le> c \<and> c \<le> 0x39)"

definition parseDigits :: "js_string \<Rightarrow> (js_string \<times> js_string) option" where
  "parseDigits s =
     (if takeWhile isDigit s = [] then None
      else Some (takeWhile isDigit s, dropWhile isDigit s))"

definition parseIntPart :: "js_string \<Rightarrow> (js_string \<times> js_string) option" where
  "parseIntPart s =
     (case s of
        [] \<Rightarrow> None
      | d # ds \<Rightarrow> if d = 0x30 then Some ([d], ds) else parseDigits s)"

definition parseFracPart :: "js_string \<Rightarrow> (js_string \<times> js_string) option" where
  "parseFracPart s =
     (case s of
        [] \<Rightarrow> Some ([], s)
      | c # cs \<Rightarrow>
          if c = 0x2E then
            (case parseDigits cs of None \<Rightarrow> None | Some (ds, r) \<Rightarrow> Some (c # ds, r))
          else Some ([], s))"

definition parseExpPart :: "js_string \<Rightarrow> (js_string \<times> js_string) option" where
  "parseExpPart s =
     (case s of
        [] \<Rightarrow> Some ([], s)
      | c # cs \<Rightarrow>
          if c = 0x65 \<or> c = 0x45 then
            (case cs of
               [] \<Rightarrow> None
             | g # gs \<Rightarrow>
                 if g = 0x2B \<or> g = 0x2D then
                   (case parseDigits gs of None \<Rightarrow> None | Some (ds, r) \<Rightarrow> Some (c # g # ds, r))
                 else
                   (case parseDigits cs of None \<Rightarrow> None | Some (ds, r) \<Rightarrow> Some (c # ds, r)))
          else Some ([], s))"

definition parseNumber :: "js_string \<Rightarrow> (json \<times> js_string) option" where
  "parseNumber s =
     (let (sign, s1) = (case s of [] \<Rightarrow> ([], s) | c # cs \<Rightarrow> if c = 0x2D then ([c], cs) else ([], s))
      in case parseIntPart s1 of
           None \<Rightarrow> None
         | Some (ip, s2) \<Rightarrow>
             (case parseFracPart s2 of
                None \<Rightarrow> None
              | Some (fp, s3) \<Rightarrow>
                  (case parseExpPart s3 of
                     None \<Rightarrow> None
                   | Some (ep, s4) \<Rightarrow> Some (JNumber (sign @ ip @ fp @ ep), s4))))"

definition parseLiteral :: "js_string \<Rightarrow> json \<Rightarrow> js_string \<Rightarrow> (json \<times> js_string) option" where
  "parseLiteral lit v s =
     (if take (length lit) s = lit then Some (v, drop (length lit) s) else None)"

text \<open>
  Values, array elements and object members call each other.  The tests on the length of
  the unread text are what the termination proof rests on; they never fail, as is shown
  below, once the functions are defined.
\<close>

function parseValue :: "js_string \<Rightarrow> (json \<times> js_string) option"
  and parseElements :: "js_string \<Rightarrow> (json list \<times> js_string) option"
  and parseMembers :: "js_string \<Rightarrow> ((js_string \<times> json) list \<times> js_string) option"
where
  "parseValue s =
     (case s of
        [] \<Rightarrow> None
      | c # cs \<Rightarrow>
          if c = 0x22 then
            (case parseChars cs of None \<Rightarrow> None | Some (str, r) \<Rightarrow> Some (JString str, r))
          else if c = 0x5B then
            (case skipWhitespace cs of
               [] \<Rightarrow> None
             | d # ds \<Rightarrow>
                 if d = 0x5D then Some (JArray [], ds)
                 else (case parseElements (d # ds) of
                         None \<Rightarrow> None
                       | Some (vs, r) \<Rightarrow> Some (JArray vs, r)))
          else if c = 0x7B then
            (case skipWhitespace cs of
               [] \<Rightarrow> None
             | d # ds \<Rightarrow>
                 if d = 0x7D then Some (JObject [], ds)
                 else (case parseMembers (d # ds) of
                         None \<Rightarrow> None
                       | Some (ms, r) \<Rightarrow>
                           Some (JObject (foldl (\<lambda>al (k, v). AList.update k v al) [] ms), r)))
          else if c = 0x74 then parseLiteral [0x74, 0x72, 0x75, 0x65] (JBool True) s
          else if c = 0x66 then parseLiteral [0x66, 0x61, 0x6C, 0x73, 0x65] (JBool False) s
          else if c = 0x6E then parseLiteral [0x6E, 0x75, 0x6C, 0x6C] JNull s
          else parseNumber s)"
| "parseElements s =
     (case parseValue s of
        None \<Rightarrow> None
      | Some (v, r) \<Rightarrow>
          if length r < length s then
            (case skipWhitespace r of
               [] \<Rightarrow> None
             | d # ds \<Rightarrow>
                 if d = 0x2C then
                   (case parseElements (skipWhitespace ds) of
                      None \<Rightarrow> None
                    | Some (vs, r') \<Rightarrow> Some (v # vs, r'))
                 else if d = 0x5D then Some ([v], ds)
                 else None)
          else None)"
| "parseMembers s =
     (case s of
        [] \<Rightarrow> None
      | q # cs \<Rightarrow>
          if q \<noteq> 0x22 then None
          else
            (case parseChars cs of
               None \<Rightarrow> None
             | Some (key, r) \<Rightarrow>
                 (case skipWhitespace r of
                    [] \<Rightarrow> None
                  | colon # r1 \<Rightarrow>
                      if colon \<noteq> 0x3A \<or> \<not> length (skipWhitespace r1) < length s then None
                      else
                        (case parseValue (skipWhitespace r1) of
                           None \<Rightarrow> None
                         | Some (v, r2) \<Rightarrow>
                             if length r2 < length (skipWhitespace r1) then
                               (case skipWhitespace r2 of
                                  [] \<Rightarrow> None
                                | d # ds \<Rightarrow>
                                    if d = 0x2C then
                                      (case parseMembers (skipWhitespace ds) of
                                         None \<Rightarrow> None
                                       | Some (ms, r') \<Rightarrow> Some ((key, v) # ms, r'))
                                    else if d = 0x7D then Some ([(key, v)], ds)
                                    else None)
                             else None))))"
  by pat_completeness auto
termination
proof (relation "measure (\<lambda>x. case x of Inl s \<Rightarrow> 2 * length s
                                  | Inr (Inl s) \<Rightarrow> 2 * length s + 1
                                  | Inr (Inr s) \<Rightarrow> 2 * length s + 1)", goal_cases)
  have le: "length (skipWhitespace s) \<le> length s" for s
    by (induction s) auto
  have lt: "length ds < length s" if "skipWhitespace s = d # ds" for s d ds
    using le [of s] that by simp
  {
    case 1
    show ?case by simp
  next
    case (2 s c cs d ds)
    then show ?case using lt [of cs d ds] by simp
  next
    case (3 s c cs d ds)
    then show ?case using lt [of cs d ds] by simp
  next
    case (4 s)
    show ?case by simp
  next
    case (5 s x v r d ds)
    then show ?case using lt [of r d ds] le [of ds] by simp
  next
    case (6 s q cs x key r colon r1)
    then show ?case by simp
  next
    case (7 s q cs x key r colon r1 y v r2 d ds)
    then show ?case using lt [of r2 d ds] le [of ds] by simp
  }
qed

definition JSON_parse :: "js_string \<Rightarrow> error + json" where
  "JSON_parse text =
     (case parseValue (skipWhitespace text) of
        None \<Rightarrow> Inl SyntaxError
      | Some (v, r) \<Rightarrow> if skipWhitespace r = [] then Inr v else Inl SyntaxError)"


declare parseValue.simps [simp del] parseElements.simps [simp del] parseMembers.simps [simp del]
section \<open>Dependency lists in storage (src/models/task.model.ts)\<close>

text \<open>
  \<open>stringifyDependencies\<close> is \<open>JSON.stringify(dependencies || [])\<close>; an array is
  truthy, so the alternative is never taken for a value of the parameter's type.
  \<open>parseDependencies\<close> returns whatever \<open>JSON.parse\<close> returns, and the empty array when
  it throws.
\<close>

definition stringifyDependencies :: "js_string list \<Rightarrow> js_string" where
  "stringifyDependencies deps = JSON_stringify deps"

definition parseDependencies :: "js_string \<Rightarrow> json" where
  "parseDependencies dependenciesJson =
     (case JSON_parse dependenciesJson of Inr v \<Rightarrow> v | Inl e \<Rightarrow> JArray [])"

section \<open>The persistent store (the Prisma client behind \<open>db/client\<close>)\<close>

text \<open>
  A row of table \<open>Task\<close> (prisma/migrations): the columns of the migration, with the
  dependency list as JSON text.  The status column only ever holds the four enum names.
\<close>

record db_task =
  row_id :: js_string
  row_type :: js_string
  row_duration_ms :: int
  row_status :: TaskStatus
  row_dependencies :: js_string
  row_created_at :: int
  row_updated_at :: int

text \<open>
  The scheduler uses two operations of the client: \<open>task.findMany\<close> with a \<open>where\<close> on
  the status and nothing else (no \<open>orderBy\<close>), and \<open>task.update\<close> of the status of one id.
  The client and the database engine are not part of the repository, so both are taken as
  parameters over a store of any type \<open>'s\<close>; either may throw.
\<close>

record 's prisma =
  findMany :: "TaskStatus \<Rightarrow> 's \<Rightarrow> error + db_task list"
  update :: "js_string \<Rightarrow> TaskStatus \<Rightarrow> 's \<Rightarrow> error + 's"

text \<open>
  An in-memory store to run the definitions on: the rows in their physical order.
  \<open>findMany\<close> scans them in that order; \<open>update\<close> fails for an id that has no row.
\<close>

definition memory_findMany :: "TaskStatus \<Rightarrow> db_task list \<Rightarrow> error + db_task list" where
  "memory_findMany st rows = Inr (filter (\<lambda>r. row_status r = st) rows)"

definition memory_update :: "js_string \<Rightarrow> TaskStatus \<Rightarrow> db_task list \<Rightarrow> error + db_task list" where
  "memory_update i st rows =
     (if i \<in> row_id ` set rows
      then Inr (map (\<lambda>r. if row_id r = i then r\<lparr>row_status := st\<rparr> else r) rows)
      else Inl RecordNotFound)"

definition memory_prisma :: "db_task list prisma" where
  "memory_prisma = \<lparr>findMany = memory_findMany, update = memory_update\<rparr>"

definition memory_status :: "db_task list \<Rightarrow> js_string \<Rightarrow> TaskStatus option" where
  "memory_status rows i = map_option row_status (find (\<lambda>r. row_id r = i) rows)"

definition mkRow :: "js_string \<Rightarrow> TaskStatus \<Rightarrow> js_string \<Rightarrow> int \<Rightarrow> db_task" where
  "mkRow i st deps created =
     \<lparr>row_id = i, row_type = [], row_duration_ms = 100, row_status = st,
      row_dependencies = deps, row_created_at = created, row_updated_at = created\<rparr>"

section \<open>The scheduler (core/scheduler.ts)\<close>

text \<open>
  The state the scheduler works on: the store, the fields of class \<open>TaskScheduler\<close>, and
  what the event loop holds for it, namely the poll timers that are armed, the calls of
  \<open>poll\<close> that are suspended at an \<open>await\<close>, and the completion handlers that are
  suspended at theirs.
\<close>

datatype tick = AwaitFindMany | AwaitUpdate "json Task" "json Task list"

record 's system =
  store :: 's
  dependencyResolver :: DependencyResolver
  workerPool :: "json WorkerPool"
  isRunning :: bool
  pollingTimer :: "nat option"
  pollTimeouts :: "nat list"
  nextPollTimeout :: nat
  ticks :: "tick list"
  completions :: "json Task list"

definition new_TaskScheduler :: "int \<Rightarrow> 's \<Rightarrow> 's system" where
  "new_TaskScheduler maxTasks st =
     \<lparr>store = st, dependencyResolver = new_DependencyResolver,
      workerPool = new_WorkerPool maxTasks, isRunning = False, pollingTimer = None,
      pollTimeouts = [], nextPollTimeout = 0, ticks = [], completions = []\<rparr>"

text \<open>
  The mapping of database rows to the domain model in \<open>processEligibleTasks\<close>: the row
  is copied and its dependency text goes through \<open>JSON.parse\<close>, which may throw.  The
  result is used as the task's \<open>dependencies\<close> as it is; nothing checks that it is an
  array of strings.
\<close>

definition toTask :: "db_task \<Rightarrow> error + json Task" where
  "toTask row =
     (case JSON_parse (row_dependencies row) of
        Inl e \<Rightarrow> Inl e
      | Inr v \<Rightarrow>
          Inr \<lparr>task_id = row_id row, task_type = row_type row,
               duration_ms = row_duration_ms row, status = row_status row,
               dependencies = v, created_at = row_created_at row,
               updated_at = row_updated_at row\<rparr>)"

fun toTasks :: "db_task list \<Rightarrow> error + json Task list" where
  "toTasks [] = Inr []"
| "toTasks (row # rows) =
     (case toTask row of
        Inl e \<Rightarrow> Inl e
      | Inr task \<Rightarrow> (case toTasks rows of Inl e \<Rightarrow> Inl e | Inr tasks \<Rightarrow> Inr (task # tasks)))"

text \<open>
  \<open>isEligibleToRun\<close> as it runs on such a task, whose \<open>dependencies\<close> may be any JSON
  value.  The three tests of the source are \<open>!task.dependencies\<close>,
  \<open>task.dependencies.length === 0\<close> and \<open>task.dependencies.every(...)\<close>.

  \<^item> \<open>falsy\<close>: \<open>null\<close>, \<open>false\<close>, a number that is zero and the empty string.
  \<^item> \<open>lengthIsZero\<close>: the \<open>length\<close> of a string or an array is its number of
    elements; an object has the \<open>length\<close> that is among its members, if any, and it is
    \<open>=== 0\<close> when that member is a number that is zero; \<open>true\<close> and a number have
    none.  (\<open>null\<close> and \<open>false\<close> never get here.)
  \<^item> \<open>everyCompleted\<close>: only an array has a method \<open>every\<close>; on any other value the
    call throws a \<open>TypeError\<close>.  The completed-set holds strings, so an element that is
    not a string is not in it.

  A number text denotes zero when its digits are all zero, or when its value is at most
  2 to the power -1075, half the least positive double, which rounds to zero.
\<close>

definition digitsValue :: "js_string \<Rightarrow> int" where
  "digitsValue ds = foldl (\<lambda>a d. 10 * a + uint (d - 0x30)) 0 ds"

definition numberIsZero :: "js_string \<Rightarrow> bool" where
  "numberIsZero n =
     (let s = (case n of [] \<Rightarrow> [] | c # cs \<Rightarrow> if c = 0x2D then cs else n);
          ip = takeWhile isDigit s;
          r1 = dropWhile isDigit s;
          fp = (case r1 of [] \<Rightarrow> [] | c # cs \<Rightarrow> if c = 0x2E then takeWhile isDigit cs else []);
          r2 = (case r1 of [] \<Rightarrow> [] | c # cs \<Rightarrow> if c = 0x2E then dropWhile isDigit cs else r1);
          e = (case r2 of
                 [] \<Rightarrow> 0
               | c # cs \<Rightarrow>
                   (case cs of
                      [] \<Rightarrow> 0
                    | g # gs \<Rightarrow>
                        if g = 0x2D then - digitsValue gs
                        else if g = 0x2B then digitsValue gs
                        else digitsValue cs));
          m = digitsValue (ip @ fp);
          ex = e - int (length fp)
      in m = 0 \<or> (ex < 0 \<and> m * 2 ^ 1075 \<le> 10 ^ nat (- ex)))"

definition falsy :: "json \<Rightarrow> bool" where
  "falsy v =
     (case v of
        JNull \<Rightarrow> True
      | JBool b \<Rightarrow> \<not> b
      | JNumber n \<Rightarrow> numberIsZero n
      | JString s \<Rightarrow> s = []
      | JArray vs \<Rightarrow> False
      | JObject ms \<Rightarrow> False)"

definition lengthIsZero :: "json \<Rightarrow> bool" where
  "lengthIsZero v =
     (case v of
        JString s \<Rightarrow> s = []
      | JArray vs \<Rightarrow> vs = []
      | JObject ms \<Rightarrow>
          (case map_of ms [0x6C, 0x65, 0x6E, 0x67, 0x74, 0x68] of
             Some (JNumber n) \<Rightarrow> numberIsZero n
           | _ \<Rightarrow> False)
      | _ \<Rightarrow> False)"

definition everyCompleted :: "DependencyResolver \<Rightarrow> json \<Rightarrow> error + bool" where
  "everyCompleted r v =
     (case v of
        JArray vs \<Rightarrow>
          Inr (list_all (\<lambda>depId. case depId of JString s \<Rightarrow> s \<in> completedTaskIds r | _ \<Rightarrow> False) vs)
      | _ \<Rightarrow> Inl TypeError)"

definition isEligibleToRun_parsed :: "DependencyResolver \<Rightarrow> json Task \<Rightarrow> error + bool" where
  "isEligibleToRun_parsed r task =
     (if status task = RUNNING \<or> status task = COMPLETED then Inr False
      else if falsy (dependencies task) \<or> lengthIsZero (dependencies task) then Inr True
      else everyCompleted r (dependencies task))"

text \<open>
  \<open>getEligibleTasks\<close> on such tasks: \<open>filter\<close> calls \<open>isEligibleToRun\<close> on the tasks
  in order and is left by the first call that throws.
\<close>

fun getEligibleTasks_parsed :: "DependencyResolver \<Rightarrow> json Task list \<Rightarrow> error + json Task list" where
  "getEligibleTasks_parsed r [] = Inr []"
| "getEligibleTasks_parsed r (task # tasks) =
     (case isEligibleToRun_parsed r task of
        Inl e \<Rightarrow> Inl e
      | Inr keep \<Rightarrow>
          (case getEligibleTasks_parsed r tasks of
             Inl e \<Rightarrow> Inl e
           | Inr rest \<Rightarrow> Inr (if keep then task # rest else rest)))"

text \<open>A declared task as the value it is at run time: its dependency list as an array.\<close>

definition parsedTask :: "js_string list Task \<Rightarrow> json Task" where
  "parsedTask task =
     \<lparr>task_id = task_id task, task_type = task_type task, duration_ms = duration_ms task,
      status = status task, dependencies = JArray (map JString (dependencies task)),
      created_at = created_at task, updated_at = updated_at task\<rparr>"

text \<open>
  The first half of \<open>processEligibleTasks\<close>: the query for QUEUED rows, the early return on
  an empty result, the mapping, and the resolver's filter.
\<close>

definition fetchEligible :: "'s prisma \<Rightarrow> 's system \<Rightarrow> error + json Task list" where
  "fetchEligible db w =
     (case findMany db QUEUED (store w) of
        Inl e \<Rightarrow> Inl e
      | Inr queuedTasks \<Rightarrow>
          if queuedTasks = [] then Inr []
          else (case toTasks queuedTasks of
                  Inl e \<Rightarrow> Inl e
                | Inr tasks \<Rightarrow> getEligibleTasks_parsed (dependencyResolver w) tasks))"

text \<open>
  The body of the admission loop after its capacity test: the status write, the assignment
  to \<open>task.status\<close>, and \<open>executeTask\<close>, whose result the scheduler ignores.
\<close>

definition admitOne ::
  "'s prisma \<Rightarrow> json Task \<Rightarrow> 's system \<Rightarrow> error + bool \<times> 's system" where
  "admitOne db task w =
     (case update db (task_id task) RUNNING (store w) of
        Inl e \<Rightarrow> Inl e
      | Inr st \<Rightarrow>
          let (accepted, p) = executeTask (task\<lparr>status := RUNNING\<rparr>) (workerPool w)
          in Inr (accepted, w\<lparr>store := st, workerPool := p\<rparr>))"

text \<open>
  One tick run without interruption.  Besides the error that ends it (if any) and the
  state it leaves, a tick yields the effects it had on the store and the pool, in order.
  In the source the loop is suspended at the \<open>await\<close> of \<open>update\<close>, between the
  capacity test and \<open>executeTask\<close>, and other callbacks may run there: that is
  \<open>tickResumes\<close> in the section on the event loop, and \<open>admitNext_runs_as_admit\<close> and
  \<open>poll_runs_as_tick\<close> show that a suspended tick resumed with nothing in between leaves
  the state that \<open>admit\<close> and \<open>poll\<close> leave.
\<close>

datatype effect =
  Persisted js_string TaskStatus
| PersistFailed js_string TaskStatus error
| Submitted "json Task" bool

fun admit ::
  "'s prisma \<Rightarrow> json Task list \<Rightarrow> 's system \<Rightarrow> error option \<times> effect list \<times> 's system" where
  "admit db [] w = (None, [], w)"
| "admit db (task # rest) w =
     (if \<not> hasCapacity (workerPool w) then (None, [], w)
      else
        (case admitOne db task w of
           Inl e \<Rightarrow> (Some e, [PersistFailed (task_id task) RUNNING e], w)
         | Inr (accepted, w1) \<Rightarrow>
             let (err, effs, w2) = admit db rest w1
             in (err,
                 Persisted (task_id task) RUNNING #
                 Submitted (task\<lparr>status := RUNNING\<rparr>) accepted # effs,
                 w2)))"

definition processEligibleTasks ::
  "'s prisma \<Rightarrow> 's system \<Rightarrow> error option \<times> effect list \<times> 's system" where
  "processEligibleTasks db w =
     (case fetchEligible db w of
        Inl e \<Rightarrow> (Some e, [], w)
      | Inr eligibleTasks \<Rightarrow> admit db eligibleTasks w)"

definition armPollTimer :: "'s system \<Rightarrow> 's system" where
  "armPollTimer w =
     w\<lparr>pollingTimer := Some (nextPollTimeout w),
       pollTimeouts := pollTimeouts w @ [nextPollTimeout w],
       nextPollTimeout := Suc (nextPollTimeout w)\<rparr>"

text \<open>
  \<open>poll\<close> run without interruption: nothing when the scheduler is stopped; otherwise
  the tick's work if the pool has capacity, any error being caught and logged, and in
  the \<open>finally\<close> block the timer for the next call.
\<close>

definition poll :: "'s prisma \<Rightarrow> 's system \<Rightarrow> effect list \<times> 's system" where
  "poll db w =
     (if \<not> isRunning w then ([], w)
      else if hasCapacity (workerPool w) then
        (let (err, effs, w1) = processEligibleTasks db w in (effs, armPollTimer w1))
      else ([], armPollTimer w))"

text \<open>The tasks a tick handed to \<open>executeTask\<close>, in order.\<close>

fun submitted :: "effect list \<Rightarrow> json Task list" where
  "submitted [] = []"
| "submitted (Submitted task accepted # effs) = task # submitted effs"
| "submitted (e # effs) = submitted effs"

text \<open>
  The shape of a tick's effects when every submission directly follows a successful write
  of RUNNING for the same id, and a failed write is the last effect of the tick.
\<close>

fun write_then_submit :: "effect list \<Rightarrow> bool" where
  "write_then_submit [] = True"
| "write_then_submit [PersistFailed i st e] = True"
| "write_then_submit (Persisted i st # Submitted task accepted # effs) =
     (i = task_id task \<and> st = RUNNING \<and> status task = RUNNING \<and> write_then_submit effs)"
| "write_then_submit effs = False"

text \<open>
  The life cycle of a task is QUEUED, then RUNNING, then COMPLETED or FAILED.  The
  persisted status is not behind the pool when every id in the active-run table has a
  stored status of RUNNING or later; \<open>persisted\<close> reads the status of an id out of a
  store, and \<open>writes_status\<close> says that a successful \<open>update\<close> changes what is read for
  its id and for no other.
\<close>

fun stage :: "TaskStatus \<Rightarrow> nat" where
  "stage QUEUED = 0"
| "stage RUNNING = 1"
| "stage COMPLETED = 2"
| "stage FAILED = 2"

definition not_behind :: "('s \<Rightarrow> js_string \<Rightarrow> TaskStatus option) \<Rightarrow> 's system \<Rightarrow> bool" where
  "not_behind persisted w =
     list_all (\<lambda>i. case persisted (store w) i of None \<Rightarrow> False | Some st \<Rightarrow> 1 \<le> stage st)
       (getRunningTaskIds (workerPool w))"

definition writes_status :: "'s prisma \<Rightarrow> ('s \<Rightarrow> js_string \<Rightarrow> TaskStatus option) \<Rightarrow> bool" where
  "writes_status db persisted =
     (\<forall>i st s s'. update db i st s = Inr s' \<longrightarrow> persisted s' = (persisted s)(i \<mapsto> st))"

section \<open>The scheduler on the event loop\<close>

text \<open>
  \<open>poll\<close> and \<open>handleTaskCompleted\<close> are \<open>async\<close>: each runs until its next \<open>await\<close>
  of a store call and is resumed when that call settles, and other callbacks of the event
  loop run in between.  \<open>pollEnter\<close> is a call of \<open>poll\<close> up to its first \<open>await\<close>;
  \<open>admitNext\<close> is the head of the admission loop; \<open>tickResumes\<close> continues the
  suspended call number \<open>k\<close>, the store call it waited for taking effect at that moment.
  A call of \<open>poll\<close> that returns arms the next poll timer on its way out.
\<close>

definition pollEnter :: "'s system \<Rightarrow> 's system" where
  "pollEnter w =
     (if \<not> isRunning w then w
      else if hasCapacity (workerPool w) then w\<lparr>ticks := ticks w @ [AwaitFindMany]\<rparr>
      else armPollTimer w)"

definition admitNext :: "json Task list \<Rightarrow> 's system \<Rightarrow> 's system" where
  "admitNext eligibleTasks w =
     (case eligibleTasks of
        [] \<Rightarrow> armPollTimer w
      | task # rest \<Rightarrow>
          if \<not> hasCapacity (workerPool w) then armPollTimer w
          else w\<lparr>ticks := ticks w @ [AwaitUpdate task rest]\<rparr>)"

definition removeAt :: "nat \<Rightarrow> 'a list \<Rightarrow> 'a list" where
  "removeAt k xs = take k xs @ drop (Suc k) xs"

definition tickResumes :: "'s prisma \<Rightarrow> nat \<Rightarrow> 's system \<Rightarrow> 's system" where
  "tickResumes db k w =
     (if k < length (ticks w) then
        (let w0 = w\<lparr>ticks := removeAt k (ticks w)\<rparr>
         in case ticks w ! k of
              AwaitFindMany \<Rightarrow>
                (case fetchEligible db w0 of
                   Inl e \<Rightarrow> armPollTimer w0
                 | Inr eligibleTasks \<Rightarrow> admitNext eligibleTasks w0)
            | AwaitUpdate task rest \<Rightarrow>
                (case admitOne db task w0 of
                   Inl e \<Rightarrow> armPollTimer w0
                 | Inr (accepted, w1) \<Rightarrow> admitNext rest w1))
      else w)"

text \<open>A poll timer fires: the timer is spent and \<open>poll\<close> is called.\<close>

definition pollTimeoutFires :: "nat \<Rightarrow> 's system \<Rightarrow> 's system" where
  "pollTimeoutFires h w =
     (if h \<in> set (pollTimeouts w)
      then pollEnter (w\<lparr>pollTimeouts := removeAll h (pollTimeouts w)\<rparr>)
      else w)"

text \<open>
  A task's timer fires in the pool: the pool's callback runs and emits \<open>taskCompleted\<close>,
  and \<open>handleTaskCompleted\<close> starts and is suspended at its status write.
\<close>

definition taskTimeoutFires :: "nat \<Rightarrow> 's system \<Rightarrow> 's system" where
  "taskTimeoutFires h w =
     (case map_of (timeouts (workerPool w)) h of
        None \<Rightarrow> w
      | Some task \<Rightarrow>
          w\<lparr>workerPool := timeoutFires h (workerPool w), completions := completions w @ [task]\<rparr>)"

text \<open>
  \<open>handleTaskCompleted\<close> is resumed: if the write of COMPLETED failed, the error is
  logged; otherwise the id is registered with the resolver and \<open>poll\<close> is called.
\<close>

definition completionResumes :: "'s prisma \<Rightarrow> nat \<Rightarrow> 's system \<Rightarrow> 's system" where
  "completionResumes db k w =
     (if k < length (completions w) then
        (let task = completions w ! k;
             w0 = w\<lparr>completions := removeAt k (completions w)\<rparr>
         in case update db (task_id task) COMPLETED (store w0) of
              Inl e \<Rightarrow> w0
            | Inr st \<Rightarrow>
                pollEnter
                  (w0\<lparr>store := st,
                      dependencyResolver :=
                        registerCompletedTask (task_id task) (dependencyResolver w0)\<rparr>))
      else w)"

text \<open>
  \<open>start\<close> on a stopped scheduler: the flag is set, the ids of the COMPLETED rows are
  loaded into the resolver (a failure of that query is logged), and \<open>poll\<close> is called.
\<close>

definition start :: "'s prisma \<Rightarrow> 's system \<Rightarrow> 's system" where
  "start db w =
     (if isRunning w then w
      else
        let w1 = w\<lparr>isRunning := True\<rparr>;
            w2 = (case findMany db COMPLETED (store w1) of
                    Inl e \<Rightarrow> w1
                  | Inr completedTasks \<Rightarrow>
                      w1\<lparr>dependencyResolver :=
                           loadCompletedTasks (map row_id completedTasks) (dependencyResolver w1)\<rparr>)
        in pollEnter w2)"

datatype loop_event =
  PollTimeoutFires nat | TickResumes nat | TaskTimeoutFires nat | CompletionResumes nat

fun loop_step :: "'s prisma \<Rightarrow> 's system \<Rightarrow> loop_event \<Rightarrow> 's system" where
  "loop_step db w (PollTimeoutFires h) = pollTimeoutFires h w"
| "loop_step db w (TickResumes k) = tickResumes db k w"
| "loop_step db w (TaskTimeoutFires h) = taskTimeoutFires h w"
| "loop_step db w (CompletionResumes k) = completionResumes db k w"

definition loop_run :: "'s prisma \<Rightarrow> 's system \<Rightarrow> loop_event list \<Rightarrow> 's system" where
  "loop_run db w evs = foldl (loop_step db) w evs"

fun timer_driven :: "loop_event \<Rightarrow> bool" where
  "timer_driven (CompletionResumes k) = False"
| "timer_driven ev = True"

text \<open>
  A store whose \<open>update\<close> throws for one id and otherwise behaves as the in-memory one,
  and the stores and schedulers the definitions are run on below.
\<close>

definition flaky_prisma :: "js_string \<Rightarrow> db_task list prisma" where
  "flaky_prisma bad =
     \<lparr>findMany = memory_findMany,
      update = (\<lambda>i st rows. if i = bad then Inl ConnectionError else memory_update i st rows)\<rparr>"

definition late_early_rows :: "db_task list" where
  "late_early_rows = [mkRow [0x4C] QUEUED [0x5B, 0x5D] 2, mkRow [0x45] QUEUED [0x5B, 0x5D] 1]"

definition started_scheduler :: "int \<Rightarrow> db_task list \<Rightarrow> db_task list system" where
  "started_scheduler maxTasks rows = start memory_prisma (new_TaskScheduler maxTasks rows)"

text \<open>
  The invariant of the timer-driven chain of a running scheduler: one call of \<open>poll\<close> is
  in flight or one poll timer is armed, never both and never two of either.
\<close>

definition single_chain :: "'s system \<Rightarrow> bool" where
  "single_chain w = (isRunning w \<and> length (ticks w) + length (pollTimeouts w) = 1)"

definition late_early_tasks :: "json Task list" where
  "late_early_tasks =
     [\<lparr>task_id = [0x4C], task_type = [], duration_ms = 100, status = QUEUED,
       dependencies = JArray [], created_at = 2, updated_at = 2\<rparr>,
      \<lparr>task_id = [0x45], task_type = [], duration_ms = 100, status = QUEUED,
       dependencies = JArray [], created_at = 1, updated_at = 1\<rparr>]"

text \<open>
  Rows whose dependency texts are \<open>null\<close>, \<open>{"length":0}\<close>, \<open>[1]\<close>, \<open>["X"]\<close> and
  \<open>[]\<close>, in this order, with ids N, O, P, R and Q.
\<close>

definition unchecked_rows :: "db_task list" where
  "unchecked_rows =
     [mkRow [0x4E] QUEUED [0x6E, 0x75, 0x6C, 0x6C] 1,
      mkRow [0x4F] QUEUED [0x7B, 0x22, 0x6C, 0x65, 0x6E, 0x67, 0x74, 0x68, 0x22, 0x3A, 0x30, 0x7D] 2,
      mkRow [0x50] QUEUED [0x5B, 0x31, 0x5D] 3,
      mkRow [0x52] QUEUED [0x5B, 0x22, 0x58, 0x22, 0x5D] 4,
      mkRow [0x51] QUEUED [0x5B, 0x5D] 5]"

section \<open>Eligibility\<close>

text \<open>
  C1.  \<open>isEligibleToRun\<close> answers false for a task that is RUNNING or COMPLETED; for any
  other task it answers true when the dependency list is empty, whatever the completed-set
  holds, and otherwise true exactly when every dependency id is in the completed-set.  A
  FAILED task whose dependencies are all completed is therefore reported eligible.
\<close>

theorem isEligibleToRun_spec:
  "(status t = RUNNING \<or> status t = COMPLETED \<longrightarrow> \<not> isEligibleToRun r t) \<and>
   (status t \<noteq> RUNNING \<and> status t \<noteq> COMPLETED \<and> dependencies t = [] \<longrightarrow> isEligibleToRun r t) \<and>
   (status t \<noteq> RUNNING \<and> status t \<noteq> COMPLETED \<and> dependencies t \<noteq> [] \<longrightarrow>
      isEligibleToRun r t = (\<forall>d \<in> set (dependencies t). d \<in> completedTaskIds r)) \<and>
   (status t = FAILED \<and> set (dependencies t) \<subseteq> completedTaskIds r \<longrightarrow> isEligibleToRun r t)"
  by (auto simp add: isEligibleToRun_def list_all_iff)

theorem isEligibleToRun_spec_witness:
  "\<not> isEligibleToRun \<lparr>completedTaskIds = {[0x41]}\<rparr> (mkTask [0x42] RUNNING []) \<and>
   isEligibleToRun \<lparr>completedTaskIds = {}\<rparr> (mkTask [0x42] QUEUED []) \<and>
   isEligibleToRun \<lparr>completedTaskIds = {[0x41]}\<rparr> (mkTask [0x42] QUEUED [[0x41]]) \<and>
   \<not> isEligibleToRun \<lparr>completedTaskIds = {[0x41]}\<rparr> (mkTask [0x42] QUEUED [[0x41], [0x43]]) \<and>
   isEligibleToRun \<lparr>completedTaskIds = {[0x41]}\<rparr> (mkTask [0x42] FAILED [[0x41]])"
  using isEligibleToRun_spec [of "mkTask [0x42] RUNNING []" "\<lparr>completedTaskIds = {[0x41]}\<rparr>"]
    isEligibleToRun_spec [of "mkTask [0x42] QUEUED []" "\<lparr>completedTaskIds = {}\<rparr>"]
    isEligibleToRun_spec [of "mkTask [0x42] QUEUED [[0x41]]" "\<lparr>completedTaskIds = {[0x41]}\<rparr>"]
    isEligibleToRun_spec [of "mkTask [0x42] QUEUED [[0x41], [0x43]]" "\<lparr>completedTaskIds = {[0x41]}\<rparr>"]
    isEligibleToRun_spec [of "mkTask [0x42] FAILED [[0x41]]" "\<lparr>completedTaskIds = {[0x41]}\<rparr>"]
  by (simp add: mkTask_def)

section \<open>The worker pool: admission\<close>

lemma map_of_runningTasks_iff:
  "(map_of (runningTasks p) i \<noteq> None) = (i \<in> set (getRunningTaskIds p))"
  by (simp add: getRunningTaskIds_def map_of_eq_None_iff)

lemma executeTask_accepted:
  assumes "hasCapacity p" and "task_id t \<notin> set (getRunningTaskIds p)"
  shows "executeTask t p =
     (True, p\<lparr>activeTaskCount := activeTaskCount p + 1,
        emitted := emitted p @ [\<lparr>event = TaskStarted t, seen_count = activeTaskCount p + 1,
                                 seen_ids = getRunningTaskIds p\<rparr>],
        timeouts := timeouts p @ [(nextTimeout p, t)],
        nextTimeout := Suc (nextTimeout p),
        runningTasks := AList.update (task_id t) (nextTimeout p) (runningTasks p)\<rparr>)"
  using assms map_of_runningTasks_iff [of p "task_id t"]
  by (simp add: executeTask_def emit_def setTimeout_def getActiveTaskCount_def
      getRunningTaskIds_def Let_def)

lemma executeTask_rejected:
  assumes "\<not> hasCapacity p \<or> task_id t \<in> set (getRunningTaskIds p)"
  shows "executeTask t p = (False, p)"
  using assms map_of_runningTasks_iff [of p "task_id t"]
  by (auto simp add: executeTask_def)

text \<open>
  C3.  Whenever the pool lacks capacity, or the task's id is already a key of the
  active-run table, \<open>executeTask\<close> returns false and the pool it leaves behind is the
  pool it was given: counter, table, timers and emitted events are all unchanged.
  Consequently, once a task has been accepted, a further \<open>executeTask\<close> for the same id
  is rejected as long as that entry is in the table.
\<close>

theorem executeTask_rejects_unchanged:
  "(\<not> hasCapacity p \<or> task_id t \<in> set (getRunningTaskIds p) \<longrightarrow> executeTask t p = (False, p)) \<and>
   (fst (executeTask t p) \<and> task_id t' = task_id t \<longrightarrow>
      executeTask t' (snd (executeTask t p)) = (False, snd (executeTask t p)))"
proof (intro conjI impI)
  assume "\<not> hasCapacity p \<or> task_id t \<in> set (getRunningTaskIds p)"
  then show "executeTask t p = (False, p)" by (rule executeTask_rejected)
next
  assume a: "fst (executeTask t p) \<and> task_id t' = task_id t"
  have acc: "hasCapacity p \<and> task_id t \<notin> set (getRunningTaskIds p)"
  proof (rule ccontr)
    assume "\<not> (hasCapacity p \<and> task_id t \<notin> set (getRunningTaskIds p))"
    then have "executeTask t p = (False, p)" by (intro executeTask_rejected) blast
    with a show False by simp
  qed
  then have "task_id t' \<in> set (getRunningTaskIds (snd (executeTask t p)))"
    using a by (simp add: executeTask_accepted getRunningTaskIds_def AList.update_keys)
  then show "executeTask t' (snd (executeTask t p)) = (False, snd (executeTask t p))"
    by (intro executeTask_rejected) blast
qed

theorem executeTask_rejects_unchanged_witness:
  "executeTask (mkTask [0x41] RUNNING []) (new_WorkerPool 0) =
     (False, new_WorkerPool 0) \<and>
   fst (executeTask (mkTask [0x41] RUNNING []) (new_WorkerPool 2)) \<and>
   executeTask (mkTask [0x41] QUEUED [[0x42]])
       (snd (executeTask (mkTask [0x41] RUNNING []) (new_WorkerPool 2))) =
     (False, snd (executeTask (mkTask [0x41] RUNNING []) (new_WorkerPool 2)))"
proof -
  have cap: "\<not> hasCapacity (new_WorkerPool 0 :: js_string list WorkerPool)"
    by (simp add: hasCapacity_def new_WorkerPool_def)
  have acc: "fst (executeTask (mkTask [0x41] RUNNING []) (new_WorkerPool 2))"
    by (simp add: executeTask_def hasCapacity_def new_WorkerPool_def mkTask_def emit_def
        setTimeout_def Let_def)
  have same: "task_id (mkTask [0x41] QUEUED [[0x42]]) = task_id (mkTask [0x41] RUNNING [])"
    by (simp add: mkTask_def)
  show ?thesis
    using executeTask_rejects_unchanged [of "new_WorkerPool 0" "mkTask [0x41] RUNNING []"]
      executeTask_rejects_unchanged [of "new_WorkerPool 2" "mkTask [0x41] RUNNING []"
        "mkTask [0x41] QUEUED [[0x42]]"] cap acc same
    by simp
qed

section \<open>The worker pool: order of effects on acceptance\<close>

text \<open>
  C7, as the specification words it: when \<open>executeTask\<close> accepts a task, the started
  event fires after the active-run entry has been recorded, so a listener of that event
  finds the task's id in the table.  The code emits the event before it arms the timer and
  stores the handle: on a fresh pool of size one, the listener of the started event of task
  \<open>A\<close> reads an empty table.
\<close>

theorem started_event_sees_no_entry:
  "fst (executeTask (mkTask [0x41] RUNNING []) (new_WorkerPool 1)) \<and>
   event (last (emitted (snd (executeTask (mkTask [0x41] RUNNING []) (new_WorkerPool 1))))) =
     TaskStarted (mkTask [0x41] RUNNING []) \<and>
   [0x41] \<notin> set (seen_ids (last (emitted
     (snd (executeTask (mkTask [0x41] RUNNING []) (new_WorkerPool 1)))))) \<and>
   getRunningTaskIds (snd (executeTask (mkTask [0x41] RUNNING []) (new_WorkerPool 1))) = [[0x41]]"
  by (simp add: executeTask_def hasCapacity_def new_WorkerPool_def mkTask_def emit_def
      setTimeout_def getActiveTaskCount_def getRunningTaskIds_def Let_def)

text \<open>
  C7, amended.  When \<open>executeTask\<close> accepts a task, the active count is incremented
  first and the started event is emitted synchronously before the active-run entry for the
  task id is recorded: at the moment the started event fires the active count already
  includes the task, but the active-run table is still the table from before the call and
  does not contain the task's id.  The entry is recorded before \<open>executeTask\<close> returns.
\<close>

theorem executeTask_order_of_effects:
  assumes "fst (executeTask t p)"
  shows "emitted (snd (executeTask t p)) =
       emitted p @ [\<lparr>event = TaskStarted t, seen_count = getActiveTaskCount p + 1,
                      seen_ids = getRunningTaskIds p\<rparr>] \<and>
     task_id t \<notin> set (seen_ids (last (emitted (snd (executeTask t p))))) \<and>
     getActiveTaskCount (snd (executeTask t p)) = getActiveTaskCount p + 1 \<and>
     getRunningTaskIds (snd (executeTask t p)) = getRunningTaskIds p @ [task_id t] \<and>
     map_of (runningTasks (snd (executeTask t p))) (task_id t) = Some (nextTimeout p)"
proof -
  have "hasCapacity p \<and> task_id t \<notin> set (getRunningTaskIds p)"
  proof (rule ccontr)
    assume "\<not> (hasCapacity p \<and> task_id t \<notin> set (getRunningTaskIds p))"
    then have "executeTask t p = (False, p)" by (intro executeTask_rejected) blast
    then show False using assms by simp
  qed
  then show ?thesis
    by (simp add: executeTask_accepted getActiveTaskCount_def getRunningTaskIds_def
        AList.update_keys AList.update_conv')
qed

theorem executeTask_order_of_effects_witness:
  "fst (executeTask (mkTask [0x41] RUNNING []) (new_WorkerPool 1)) \<and>
   emitted (snd (executeTask (mkTask [0x41] RUNNING []) (new_WorkerPool 1))) =
     [\<lparr>event = TaskStarted (mkTask [0x41] RUNNING []), seen_count = 1, seen_ids = []\<rparr>] \<and>
   getRunningTaskIds (snd (executeTask (mkTask [0x41] RUNNING []) (new_WorkerPool 1))) = [[0x41]]"
proof -
  have acc: "fst (executeTask (mkTask [0x41] RUNNING []) (new_WorkerPool 1))"
    by (simp add: executeTask_def hasCapacity_def new_WorkerPool_def mkTask_def emit_def
        setTimeout_def Let_def)
  show ?thesis
    using executeTask_order_of_effects [OF acc] acc
    by (simp add: getActiveTaskCount_def getRunningTaskIds_def new_WorkerPool_def mkTask_def)
qed

section \<open>The worker pool: the concurrency ceiling\<close>

lemma shutdown_loop_fields:
  "activeTaskCount (foldl (\<lambda>q (taskId, h). emit (TaskCancelled taskId) (clearTimeout h q)) p al) = activeTaskCount p \<and>
   maxConcurrentTasks (foldl (\<lambda>q (taskId, h). emit (TaskCancelled taskId) (clearTimeout h q)) p al) = maxConcurrentTasks p \<and>
   (\<forall>e \<in> set (emitted (foldl (\<lambda>q (taskId, h). emit (TaskCancelled taskId) (clearTimeout h q)) p al)).
       e \<in> set (emitted p) \<or> seen_count e = activeTaskCount p)"
proof (induction al arbitrary: p)
  case Nil
  then show ?case by simp
next
  case (Cons a al)
  obtain i h where a: "a = (i, h)" by (cases a)
  let ?q = "emit (TaskCancelled i) (clearTimeout h p)"
  have q: "activeTaskCount ?q = activeTaskCount p" "maxConcurrentTasks ?q = maxConcurrentTasks p"
    "set (emitted ?q) = insert \<lparr>event = TaskCancelled i, seen_count = activeTaskCount p,
        seen_ids = getRunningTaskIds p\<rparr> (set (emitted p))"
    by (simp_all add: emit_def clearTimeout_def getActiveTaskCount_def getRunningTaskIds_def)
  show ?case using Cons.IH [of ?q] q by (auto simp add: a)
qed

lemma bounded_step: "bounded p \<Longrightarrow> bounded (pool_step p x) \<and> maxConcurrentTasks (pool_step p x) = maxConcurrentTasks p"
proof (cases x)
  case (ExecuteTask t)
  assume "bounded p"
  then show ?thesis using ExecuteTask
    by (auto simp add: bounded_def executeTask_def hasCapacity_def emit_def setTimeout_def
        getActiveTaskCount_def Let_def)
next
  case (TimeoutFires h)
  assume "bounded p"
  then show ?thesis using TimeoutFires
    by (auto simp add: bounded_def timeoutFires_def emit_def getActiveTaskCount_def Let_def
        split: option.splits)
next
  case (CancelTask i)
  assume "bounded p"
  then show ?thesis using CancelTask
    by (auto simp add: bounded_def cancelTask_def clearTimeout_def emit_def getActiveTaskCount_def Let_def
        split: option.splits)
next
  case Shutdown
  assume "bounded p"
  then show ?thesis using Shutdown shutdown_loop_fields [of p "runningTasks p"]
    by (fastforce simp add: bounded_def shutdown_def Let_def)
qed

lemma bounded_run: "bounded p \<Longrightarrow> bounded (pool_run p ops) \<and> maxConcurrentTasks (pool_run p ops) = maxConcurrentTasks p"
  unfolding pool_run_def
proof (induction ops arbitrary: p)
  case Nil
  then show ?case by simp
next
  case (Cons x ops)
  from bounded_step [OF Cons.prems, of x] Cons.IH [of "pool_step p x"]
  show ?case by simp
qed

text \<open>
  C2.  Start from a freshly constructed pool whose \<open>maxConcurrentTasks\<close> is at least
  one and apply any sequence of \<open>executeTask\<close>, timer callbacks (task completions),
  \<open>cancelTask\<close> and \<open>shutdown\<close>.  The active count of the pool reached is at most the
  maximum, so is every count a listener was shown at an emission on the way, and
  \<open>hasCapacity\<close> is true exactly when the active count is strictly below the maximum.
\<close>

theorem active_count_never_exceeds_max:
  "1 \<le> m \<Longrightarrow>
   activeTaskCount (pool_run (new_WorkerPool m) ops) \<le> m \<and>
   (\<forall>e \<in> set (emitted (pool_run (new_WorkerPool m) ops)). seen_count e \<le> m) \<and>
   hasCapacity (pool_run (new_WorkerPool m) ops) =
     (getActiveTaskCount (pool_run (new_WorkerPool m) ops) < m)"
proof -
  assume m: "1 \<le> m"
  have "bounded (new_WorkerPool m)" using m by (simp add: bounded_def new_WorkerPool_def)
  from bounded_run [OF this, of ops]
  have "bounded (pool_run (new_WorkerPool m) ops)" "maxConcurrentTasks (pool_run (new_WorkerPool m) ops) = m"
    by (simp_all add: new_WorkerPool_def)
  then show ?thesis by (simp add: bounded_def hasCapacity_def getActiveTaskCount_def)
qed

theorem active_count_never_exceeds_max_witness:
  "(1::int) \<le> 1 \<and>
   activeTaskCount (pool_run (new_WorkerPool 1)
      [ExecuteTask (mkTask [0x41] RUNNING []), ExecuteTask (mkTask [0x42] RUNNING [])]) = 1 \<and>
   \<not> hasCapacity (pool_run (new_WorkerPool 1)
      [ExecuteTask (mkTask [0x41] RUNNING []), ExecuteTask (mkTask [0x42] RUNNING [])])"
  using active_count_never_exceeds_max [of 1 "[ExecuteTask (mkTask [0x41] RUNNING []), ExecuteTask (mkTask [0x42] RUNNING [])]"]
  by (simp add: pool_run_def new_WorkerPool_def executeTask_def hasCapacity_def emit_def setTimeout_def mkTask_def
      getActiveTaskCount_def getRunningTaskIds_def Let_def)

section \<open>The worker pool: counter and table agree\<close>

lemma length_delete_present:
  "distinct (map fst al) \<Longrightarrow> map_of al k = Some v \<Longrightarrow> Suc (length (AList.delete k al)) = length al"
proof (induction al)
  case Nil
  then show ?case by simp
next
  case (Cons a al)
  show ?case
  proof (cases "fst a = k")
    case True
    then have "k \<notin> fst ` set al" using Cons.prems(1) by auto
    then have "AList.delete k al = al" by (simp add: AList.delete_id)
    then show ?thesis using True by (cases a) (simp add: AList.delete_eq)
  next
    case False
    then have "map_of al k = Some v" using Cons.prems(2) by (cases a) (auto split: if_splits)
    with Cons show ?thesis using False by (cases a) (auto simp add: AList.delete_eq)
  qed
qed

lemma length_update_absent:
  "k \<notin> fst ` set al \<Longrightarrow> length (AList.update k v al) = Suc (length al)"
  by (induction al) auto

lemma timeouts_delete_subset: "x \<in> set (AList.delete h ts) \<Longrightarrow> x \<in> set ts \<and> fst x \<noteq> h"
  by (auto simp add: AList.delete_eq)

lemma consistent_executeTask: "consistent p \<Longrightarrow> consistent (snd (executeTask t p))"
proof -
  assume c: "consistent p"
  show ?thesis
  proof (cases "\<not> hasCapacity p \<or> map_of (runningTasks p) (task_id t) \<noteq> None")
    case True
    then show ?thesis using c by (auto simp add: executeTask_def)
  next
    case False
    then have new: "task_id t \<notin> fst ` set (runningTasks p)" by (simp add: map_of_eq_None_iff)
    have other: "map_of (AList.update (task_id t) v (runningTasks p)) (task_id t') = Some h'"
      if "(h', t') \<in> set (timeouts p)" for h' t' v
    proof -
      from that c have s: "map_of (runningTasks p) (task_id t') = Some h'"
        by (auto simp add: consistent_def)
      then have "task_id t' \<noteq> task_id t" using False by auto
      with s show ?thesis by (simp add: AList.update_conv')
    qed
    show ?thesis using False c new other
      by (auto simp add: executeTask_def consistent_def emit_def setTimeout_def Let_def
          AList.distinct_update length_update_absent AList.update_conv')
  qed
qed

lemma consistent_timeoutFires: "consistent p \<Longrightarrow> consistent (timeoutFires h p)"
proof (cases "map_of (timeouts p) h")
  case None
  assume "consistent p"
  then show ?thesis using None by (simp add: timeoutFires_def)
next
  case (Some t)
  assume c: "consistent p"
  from Some have mem: "(h, t) \<in> set (timeouts p)" by (rule map_of_SomeD)
  with c have ent: "map_of (runningTasks p) (task_id t) = Some h" by (auto simp add: consistent_def)
  have d: "distinct (map fst (runningTasks p))" using c by (simp add: consistent_def)
  have len: "Suc (length (AList.delete (task_id t) (runningTasks p))) = length (runningTasks p)"
    using d ent by (rule length_delete_present)
  have other: "map_of (AList.delete (task_id t) (runningTasks p)) (task_id t') = Some h'"
    if "(h', t') \<in> set (AList.delete h (timeouts p))" for h' t'
  proof -
    from that have m: "(h', t') \<in> set (timeouts p)" and ne: "h' \<noteq> h"
      using timeouts_delete_subset [of "(h', t')" h "timeouts p"] by auto
    from m c have s: "map_of (runningTasks p) (task_id t') = Some h'"
      by (auto simp add: consistent_def)
    with ent ne have "task_id t' \<noteq> task_id t" by auto
    with s show ?thesis by (simp add: AList.delete_conv')
  qed
  have cnt: "activeTaskCount p - 1 = int (length (AList.delete (task_id t) (runningTasks p)))"
    using c len by (simp add: consistent_def)
  show ?thesis using Some d cnt other
    by (auto simp add: timeoutFires_def consistent_def emit_def Let_def AList.distinct_delete)
qed

lemma consistent_cancelTask: "consistent p \<Longrightarrow> consistent (snd (cancelTask i p))"
proof (cases "map_of (runningTasks p) i")
  case None
  assume "consistent p"
  then show ?thesis using None by (simp add: cancelTask_def)
next
  case (Some h)
  assume c: "consistent p"
  have d: "distinct (map fst (runningTasks p))" using c by (simp add: consistent_def)
  have len: "Suc (length (AList.delete i (runningTasks p))) = length (runningTasks p)"
    using d Some by (rule length_delete_present)
  have other: "map_of (AList.delete i (runningTasks p)) (task_id t') = Some h'"
    if "(h', t') \<in> set (AList.delete h (timeouts p))" for h' t'
  proof -
    from that have m: "(h', t') \<in> set (timeouts p)" and ne: "h' \<noteq> h"
      using timeouts_delete_subset [of "(h', t')" h "timeouts p"] by auto
    from m c have s: "map_of (runningTasks p) (task_id t') = Some h'"
      by (auto simp add: consistent_def)
    with Some ne have "task_id t' \<noteq> i" by auto
    with s show ?thesis by (simp add: AList.delete_conv')
  qed
  have cnt: "activeTaskCount p - 1 = int (length (AList.delete i (runningTasks p)))"
    using c len by (simp add: consistent_def)
  show ?thesis using Some d cnt other
    by (auto simp add: cancelTask_def clearTimeout_def consistent_def emit_def Let_def AList.distinct_delete)
qed

lemma shutdown_loop_timeouts:
  "set (timeouts (foldl (\<lambda>q (taskId, h). emit (TaskCancelled taskId) (clearTimeout h q)) p al)) =
     {x \<in> set (timeouts p). fst x \<notin> snd ` set al}"
proof (induction al arbitrary: p)
  case Nil
  then show ?case by simp
next
  case (Cons a al)
  obtain i h where a: "a = (i, h)" by (cases a)
  have "set (timeouts (emit (TaskCancelled i) (clearTimeout h p))) = {x \<in> set (timeouts p). fst x \<noteq> h}"
    by (auto simp add: emit_def clearTimeout_def AList.delete_eq)
  then show ?case using Cons.IH [of "emit (TaskCancelled i) (clearTimeout h p)"]
    by (auto simp add: a)
qed

lemma consistent_shutdown: "consistent p \<Longrightarrow> consistent (shutdown p)"
proof -
  assume c: "consistent p"
  have "fst x \<in> snd ` set (runningTasks p)" if "x \<in> set (timeouts p)" for x
  proof -
    obtain h t where x: "x = (h, t)" by (cases x)
    with that c have "map_of (runningTasks p) (task_id t) = Some h" by (auto simp add: consistent_def)
    then have "(task_id t, h) \<in> set (runningTasks p)" by (rule map_of_SomeD)
    then show ?thesis using x by force
  qed
  then have "set (timeouts (foldl (\<lambda>q (taskId, h). emit (TaskCancelled taskId) (clearTimeout h q)) p (runningTasks p))) = {}"
    unfolding shutdown_loop_timeouts by blast
  then show ?thesis by (simp add: shutdown_def consistent_def Let_def)
qed

lemma consistent_step: "consistent p \<Longrightarrow> consistent (pool_step p x)"
  by (cases x) (simp_all add: consistent_executeTask consistent_timeoutFires consistent_cancelTask consistent_shutdown)

lemma consistent_run: "consistent p \<Longrightarrow> consistent (pool_run p ops)"
  unfolding pool_run_def by (induction ops arbitrary: p) (simp_all add: consistent_step)

text \<open>
  C9.  After any sequence of completed pool operations on a freshly constructed pool,
  \<open>getActiveTaskCount()\<close> equals the length of \<open>getRunningTaskIds()\<close>: the counter is the
  number of entries of the active-run table.
\<close>

theorem count_equals_table_size:
  "getActiveTaskCount (pool_run (new_WorkerPool m) ops) =
     int (length (getRunningTaskIds (pool_run (new_WorkerPool m) ops)))"
proof -
  have "consistent (new_WorkerPool m)" by (simp add: consistent_def new_WorkerPool_def)
  then have "consistent (pool_run (new_WorkerPool m) ops)" by (rule consistent_run)
  then show ?thesis by (simp add: consistent_def getActiveTaskCount_def getRunningTaskIds_def)
qed

section \<open>JSON text: every parser reads on\<close>

text \<open>
  A parser that succeeds leaves strictly less text than it was given.  The length tests
  in \<open>parseElements\<close> and \<open>parseMembers\<close> therefore always succeed, and both
  functions satisfy their equations without the tests.
\<close>

lemma parseChars_shorter: "parseChars cs = Some (s, r) \<Longrightarrow> length r < length cs"
proof (induction "length cs" arbitrary: cs s rule: less_induct)
  case less
  show ?case
  proof (cases cs)
    case Nil
    with less.prems show ?thesis by simp
  next
    case (Cons c cs')
    have IH: "length r < length x" if "length x < length cs" "parseChars x = Some (s', r)" for x s'
      using less.hyps [OF that] .
    have tail: "length r < length cs" if "parseChars x = Some (s', r)" "length x < length cs" for x s'
      using IH [OF that(2) that(1)] that(2) by simp
    show ?thesis
    proof (cases "c = 0x22")
      case True
      with less.prems Cons show ?thesis by simp
    next
      case q: False
      show ?thesis
      proof (cases "c = 0x5C")
        case False
        with q less.prems Cons obtain s' where "parseChars cs' = Some (s', r)"
          by (auto simp add: consUnit_def split: if_splits option.splits)
        then show ?thesis using tail [of cs'] Cons by simp
      next
        case True
        show ?thesis
        proof (cases cs')
          case Nil
          with True less.prems Cons show ?thesis by simp
        next
          case (Cons e es)
          note es = this
          show ?thesis
          proof (cases "e = 0x75")
            case False
            with True less.prems \<open>cs = c # cs'\<close> es obtain s' where "parseChars es = Some (s', r)"
              by (auto simp add: consUnit_def split: option.splits)
            then show ?thesis using tail [of es] \<open>cs = c # cs'\<close> es by simp
          next
            case u: True
            with True less.prems \<open>cs = c # cs'\<close> es obtain h3 h2 h1 h0 x s'
              where "es = h3 # h2 # h1 # h0 # x" "parseChars x = Some (s', r)"
              by (auto simp add: consUnit_def split: option.splits list.splits)
            then show ?thesis using tail [of x] \<open>cs = c # cs'\<close> es by simp
          qed
        qed
      qed
    qed
  qed
qed

lemma parseDigits_shorter: "parseDigits s = Some (d, r) \<Longrightarrow> length r < length s"
proof -
  assume "parseDigits s = Some (d, r)"
  then have d: "takeWhile isDigit s \<noteq> []" and r: "r = dropWhile isDigit s"
    by (auto simp add: parseDigits_def split: if_splits)
  have "length (takeWhile isDigit s) + length (dropWhile isDigit s) = length s"
    by (metis length_append takeWhile_dropWhile_id)
  with d r show ?thesis by (cases "takeWhile isDigit s") auto
qed

lemma parseIntPart_shorter: "parseIntPart s = Some (d, r) \<Longrightarrow> length r < length s"
  by (auto simp add: parseIntPart_def split: list.splits if_splits dest: parseDigits_shorter)

lemma parseFracPart_shorter: "parseFracPart s = Some (d, r) \<Longrightarrow> length r \<le> length s"
  by (auto simp add: parseFracPart_def split: list.splits if_splits option.splits
      dest!: parseDigits_shorter)

lemma parseExpPart_shorter: "parseExpPart s = Some (d, r) \<Longrightarrow> length r \<le> length s"
  by (auto simp add: parseExpPart_def split: list.splits if_splits option.splits
      dest!: parseDigits_shorter)

lemma parseNumber_shorter: "parseNumber s = Some (v, r) \<Longrightarrow> length r < length s"
proof -
  assume a: "parseNumber s = Some (v, r)"
  define s1 where "s1 = (case s of [] \<Rightarrow> s | c # cs \<Rightarrow> if c = 0x2D then cs else s)"
  have s1: "length s1 \<le> length s" by (auto simp add: s1_def split: list.splits)
  from a obtain ip s2 where i: "parseIntPart s1 = Some (ip, s2)"
    by (auto simp add: parseNumber_def s1_def Let_def split: list.splits if_splits option.splits)
  from a i obtain fp s3 where f: "parseFracPart s2 = Some (fp, s3)"
    by (auto simp add: parseNumber_def s1_def Let_def split: list.splits if_splits option.splits)
  from a i f obtain ep where e: "parseExpPart s3 = Some (ep, r)"
    by (auto simp add: parseNumber_def s1_def Let_def split: list.splits if_splits option.splits)
  from parseIntPart_shorter [OF i] parseFracPart_shorter [OF f] parseExpPart_shorter [OF e] s1
  show ?thesis by simp
qed

lemma parseLiteral_shorter:
  "parseLiteral lit v s = Some (v', r) \<Longrightarrow> lit \<noteq> [] \<Longrightarrow> length r < length s"
  by (cases lit; cases s) (auto simp add: parseLiteral_def split: if_splits)

lemma skipWhitespace_le: "length (skipWhitespace s) \<le> length s"
  by (induction s) auto

lemma skipWhitespace_Cons: "skipWhitespace s = d # ds \<Longrightarrow> length ds < length s"
  using skipWhitespace_le [of s] by simp

lemma parse_shorter:
  "(\<forall>v r. parseValue s = Some (v, r) \<longrightarrow> length r < length s) \<and>
   (\<forall>vs r. parseElements s = Some (vs, r) \<longrightarrow> length r < length s) \<and>
   (\<forall>ms r. parseMembers s = Some (ms, r) \<longrightarrow> length r < length s)"
proof (induction "length s" arbitrary: s rule: less_induct)
  case less
  have E: "length r < length x" if "length x < length s" "parseElements x = Some (vs, r)" for x vs r
    using less [OF that(1)] that(2) by blast
  have M: "length r < length x" if "length x < length s" "parseMembers x = Some (ms, r)" for x ms r
    using less [OF that(1)] that(2) by blast
  have "length r < length s" if a: "parseValue s = Some (v, r)" for v r
  proof (cases s)
    case Nil
    with a show ?thesis by (subst (asm) parseValue.simps) simp
  next
    case (Cons c cs)
    have b: "(case s of [] \<Rightarrow> None | c # cs \<Rightarrow>
          if c = 0x22 then
            (case parseChars cs of None \<Rightarrow> None | Some (str, r) \<Rightarrow> Some (JString str, r))
          else if c = 0x5B then
            (case skipWhitespace cs of
               [] \<Rightarrow> None
             | d # ds \<Rightarrow>
                 if d = 0x5D then Some (JArray [], ds)
                 else (case parseElements (d # ds) of
                         None \<Rightarrow> None
                       | Some (vs, r) \<Rightarrow> Some (JArray vs, r)))
          else if c = 0x7B then
            (case skipWhitespace cs of
               [] \<Rightarrow> None
             | d # ds \<Rightarrow>
                 if d = 0x7D then Some (JObject [], ds)
                 else (case parseMembers (d # ds) of
                         None \<Rightarrow> None
                       | Some (ms, r) \<Rightarrow>
                           Some (JObject (foldl (\<lambda>al (k, v). AList.update k v al) [] ms), r)))
          else if c = 0x74 then parseLiteral [0x74, 0x72, 0x75, 0x65] (JBool True) s
          else if c = 0x66 then parseLiteral [0x66, 0x61, 0x6C, 0x73, 0x65] (JBool False) s
          else if c = 0x6E then parseLiteral [0x6E, 0x75, 0x6C, 0x6C] JNull s
          else parseNumber s) = Some (v, r)"
      using a by (subst (asm) parseValue.simps)
    consider (str) "c = 0x22" | (arr) "c \<noteq> 0x22" "c = 0x5B" | (obj) "c \<noteq> 0x22" "c \<noteq> 0x5B" "c = 0x7B"
      | (other) "c \<noteq> 0x22" "c \<noteq> 0x5B" "c \<noteq> 0x7B" by blast
    then show ?thesis
    proof cases
      case str
      with b Cons obtain x where "parseChars cs = Some (x, r)"
        by (auto split: option.splits)
      from parseChars_shorter [OF this] Cons show ?thesis by simp
    next
      case arr
      with b Cons obtain d ds where sk: "skipWhitespace cs = d # ds"
        and alt: "(d = 0x5D \<and> r = ds) \<or> (\<exists>vs. parseElements (d # ds) = Some (vs, r))"
        by (auto split: list.splits if_splits option.splits)
      from skipWhitespace_Cons [OF sk] have l: "length (d # ds) < length s" using Cons by simp
      from alt show ?thesis
      proof
        assume "d = 0x5D \<and> r = ds"
        with l show ?thesis by simp
      next
        assume "\<exists>vs. parseElements (d # ds) = Some (vs, r)"
        then obtain vs where "parseElements (d # ds) = Some (vs, r)" ..
        from E [OF l this] l show ?thesis by simp
      qed
    next
      case obj
      with b Cons obtain d ds where sk: "skipWhitespace cs = d # ds"
        and alt: "(d = 0x7D \<and> r = ds) \<or> (\<exists>ms. parseMembers (d # ds) = Some (ms, r))"
        by (auto split: list.splits if_splits option.splits)
      from skipWhitespace_Cons [OF sk] have l: "length (d # ds) < length s" using Cons by simp
      from alt show ?thesis
      proof
        assume "d = 0x7D \<and> r = ds"
        with l show ?thesis by simp
      next
        assume "\<exists>ms. parseMembers (d # ds) = Some (ms, r)"
        then obtain ms where "parseMembers (d # ds) = Some (ms, r)" ..
        from M [OF l this] l show ?thesis by simp
      qed
    next
      case other
      with b Cons have "(\<exists>lit v'. lit \<noteq> [] \<and> parseLiteral lit v' s = Some (v, r)) \<or>
          parseNumber s = Some (v, r)"
        by (auto split: if_splits)
      then show ?thesis using parseLiteral_shorter parseNumber_shorter by blast
    qed
  qed
  moreover have "length r < length s" if a: "parseElements s = Some (vs, r)" for vs r
  proof -
    from a obtain v r0 d ds where g: "length r0 < length s" and sk: "skipWhitespace r0 = d # ds"
      and alt: "(d = 0x5D \<and> r = ds) \<or> (\<exists>vs'. parseElements (skipWhitespace ds) = Some (vs', r))"
      by (subst (asm) parseElements.simps)
        (auto split: list.splits if_splits option.splits)
    from skipWhitespace_Cons [OF sk] g have l: "length ds < length s" by simp
    from alt show ?thesis
    proof
      assume "d = 0x5D \<and> r = ds"
      with l show ?thesis by simp
    next
      assume "\<exists>vs'. parseElements (skipWhitespace ds) = Some (vs', r)"
      then obtain vs' where p: "parseElements (skipWhitespace ds) = Some (vs', r)" ..
      have "length (skipWhitespace ds) < length s" using skipWhitespace_le [of ds] l by simp
      from E [OF this p] this show ?thesis by simp
    qed
  qed
  moreover have "length r < length s" if a: "parseMembers s = Some (ms, r)" for ms r
  proof -
    from a obtain r1 r2 d ds where g1: "length (skipWhitespace r1) < length s"
      and g2: "length r2 < length (skipWhitespace r1)" and sk: "skipWhitespace r2 = d # ds"
      and alt: "(d = 0x7D \<and> r = ds) \<or> (\<exists>ms'. parseMembers (skipWhitespace ds) = Some (ms', r))"
      by (subst (asm) parseMembers.simps)
        (auto split: list.splits if_splits option.splits)
    from skipWhitespace_Cons [OF sk] g1 g2 have l: "length ds < length s" by simp
    from alt show ?thesis
    proof
      assume "d = 0x7D \<and> r = ds"
      with l show ?thesis by simp
    next
      assume "\<exists>ms'. parseMembers (skipWhitespace ds) = Some (ms', r)"
      then obtain ms' where p: "parseMembers (skipWhitespace ds) = Some (ms', r)" ..
      have "length (skipWhitespace ds) < length s" using skipWhitespace_le [of ds] l by simp
      from M [OF this p] this show ?thesis by simp
    qed
  qed
  ultimately show ?case by blast
qed

lemma parseElements_reads_on:
  "parseElements s =
     (case parseValue s of
        None \<Rightarrow> None
      | Some (v, r) \<Rightarrow>
          (case skipWhitespace r of
             [] \<Rightarrow> None
           | d # ds \<Rightarrow>
               if d = 0x2C then
                 (case parseElements (skipWhitespace ds) of
                    None \<Rightarrow> None
                  | Some (vs, r') \<Rightarrow> Some (v # vs, r'))
               else if d = 0x5D then Some ([v], ds)
               else None))"
  using parse_shorter [of s]
  by (subst parseElements.simps) (auto split: option.splits)


lemma parseMembers_reads_on:
  "parseMembers s =
     (case s of
        [] \<Rightarrow> None
      | q # cs \<Rightarrow>
          if q \<noteq> 0x22 then None
          else
            (case parseChars cs of
               None \<Rightarrow> None
             | Some (key, r) \<Rightarrow>
                 (case skipWhitespace r of
                    [] \<Rightarrow> None
                  | colon # r1 \<Rightarrow>
                      if colon \<noteq> 0x3A then None
                      else
                        (case parseValue (skipWhitespace r1) of
                           None \<Rightarrow> None
                         | Some (v, r2) \<Rightarrow>
                             (case skipWhitespace r2 of
                                [] \<Rightarrow> None
                              | d # ds \<Rightarrow>
                                  if d = 0x2C then
                                    (case parseMembers (skipWhitespace ds) of
                                       None \<Rightarrow> None
                                     | Some (ms, r') \<Rightarrow> Some ((key, v) # ms, r'))
                                  else if d = 0x7D then Some ([(key, v)], ds)
                                  else None)))))"
proof (cases s)
  case Nil
  then show ?thesis by (subst parseMembers.simps) simp
next
  case (Cons q cs)
  show ?thesis
  proof (cases "parseChars cs")
    case None
    with Cons show ?thesis by (subst parseMembers.simps) simp
  next
    case (Some kr)
    obtain key r where kr: "kr = (key, r)" by (cases kr)
    show ?thesis
    proof (cases "skipWhitespace r")
      case Nil
      with Cons Some kr show ?thesis by (subst parseMembers.simps) simp
    next
      case c2: (Cons colon r1)
      have g1: "length (skipWhitespace r1) < length s"
        using parseChars_shorter [OF Some [unfolded kr]] skipWhitespace_Cons [OF c2]
          skipWhitespace_le [of r1] Cons by simp
      show ?thesis
      proof (cases "parseValue (skipWhitespace r1)")
        case None
        with Cons Some kr c2 g1 show ?thesis by (subst parseMembers.simps) simp
      next
        case v: (Some vr)
        obtain v r2 where vr: "vr = (v, r2)" by (cases vr)
        have g2: "length r2 < length (skipWhitespace r1)"
          using parse_shorter [of "skipWhitespace r1"] v vr by blast
        from Cons Some kr c2 g1 v vr g2 show ?thesis by (subst parseMembers.simps) simp
      qed
    qed
  qed
qed


section \<open>Dependency lists in storage: round trip and totality\<close>

lemma nibble_less: "nibble k c < 16"
proof -
  have "unat (take_bit 4 (drop_bit k c)) = take_bit 4 (unat (drop_bit k c))"
    by (simp add: unsigned_take_bit_eq)
  also have "\<dots> < 2 ^ 4" by (rule take_bit_nat_less_exp)
  finally show ?thesis by (simp add: nibble_def word_less_nat_alt)
qed

lemma word_lt16_cases:
  assumes "(n::16 word) < 16"
  shows "n \<in> {15, 14, 13, 12, 11, 10, 9, 8, 7, 6, 5, 4, 3, 2, 1, 0}"
proof -
  from assms have "unat n < 16" by (simp add: word_less_nat_alt)
  then have "unat n \<in> {15, 14, 13, 12, 11, 10, 9, 8, 7, 6, 5, 4, 3, 2, 1, 0}" by (simp; arith)
  then show ?thesis by (auto simp add: word_unat_eq_iff)
qed

lemma hexValue_hexDigit: "n < 16 \<Longrightarrow> hexValue (hexDigit n) = Some n"
proof -
  assume "n < 16"
  then have "n \<in> {15, 14, 13, 12, 11, 10, 9, 8, 7, 6, 5, 4, 3, 2, 1, 0}"
    by (rule word_lt16_cases)
  then show ?thesis
    by (elim insertE emptyE) (simp_all add: hexValue_def hexDigit_def)
qed

lemma nibbles: "push_bit 12 (nibble 12 c) OR push_bit 8 (nibble 8 c) OR push_bit 4 (nibble 4 c) OR nibble 0 c = c"
  unfolding nibble_def
proof (rule bit_word_eqI)
  fix n assume "n < LENGTH(16)"
  then consider "n < 4" | "4 \<le> n \<and> n < 8" | "8 \<le> n \<and> n < 12" | "12 \<le> n \<and> n < 16" by force
  then show "bit (push_bit 12 (take_bit 4 (drop_bit 12 c)) OR push_bit 8 (take_bit 4 (drop_bit 8 c)) OR
        push_bit 4 (take_bit 4 (drop_bit 4 c)) OR take_bit 4 (drop_bit 0 c)) n = bit c n"
    by cases (auto simp add: bit_simps)
qed



lemma hex4_UnicodeEscape:
  "hex4 (hexDigit (nibble 12 c)) (hexDigit (nibble 8 c)) (hexDigit (nibble 4 c))
     (hexDigit (nibble 0 c)) = Some c"
  by (simp add: hex4_def hexValue_hexDigit nibble_less nibbles)

lemma parseChars_UnicodeEscape:
  "parseChars (UnicodeEscape c @ rest) = consUnit c (parseChars rest)"
  by (simp add: UnicodeEscape_def hex4_UnicodeEscape)

lemma parseChars_plain:
  "c \<noteq> 0x22 \<Longrightarrow> c \<noteq> 0x5C \<Longrightarrow> \<not> c < 0x20 \<Longrightarrow>
   parseChars (c # rest) = consUnit c (parseChars rest)"
  by simp

lemma parseChars_quoteUnit:
  "parseChars (quoteUnit c @ rest) = consUnit c (parseChars rest)"
proof -
  consider "c = 0x08" | "c = 0x09" | "c = 0x0A" | "c = 0x0C" | "c = 0x0D" | "c = 0x22" | "c = 0x5C"
    | "c \<notin> {0x08, 0x09, 0x0A, 0x0C, 0x0D, 0x22, 0x5C}"
      "c < 0x20 \<or> isLeadingSurrogate c \<or> isTrailingSurrogate c"
    | "c \<notin> {0x08, 0x09, 0x0A, 0x0C, 0x0D, 0x22, 0x5C}"
      "\<not> (c < 0x20 \<or> isLeadingSurrogate c \<or> isTrailingSurrogate c)"
    by blast
  then show ?thesis
  proof cases
    case 8
    then have "quoteUnit c = UnicodeEscape c" by (simp add: quoteUnit_def)
    then show ?thesis by (simp add: parseChars_UnicodeEscape)
  next
    case 9
    then have "quoteUnit c = [c]" by (simp add: quoteUnit_def)
    then show ?thesis using 9 by simp
  qed (simp_all add: quoteUnit_def simpleEscape_def)
qed

lemma surrogate_plain:
  "isLeadingSurrogate c \<or> isTrailingSurrogate c \<Longrightarrow> c \<noteq> 0x22 \<and> c \<noteq> 0x5C \<and> \<not> c < 0x20"
  by (auto simp add: isLeadingSurrogate_def isTrailingSurrogate_def word_le_nat_alt word_less_nat_alt)

lemma parseChars_quoteUnits:
  "parseChars (quoteUnits s @ 0x22 # rest) = Some (s, rest)"
proof (induction s rule: quoteUnits.induct)
  case 1
  show ?case by simp
next
  case (2 c)
  show ?case by (simp add: parseChars_quoteUnit consUnit_def)
next
  case (3 c d cs)
  show ?case
  proof (cases "isLeadingSurrogate c \<and> isTrailingSurrogate d")
    case True
    then have pc: "c \<noteq> 0x22 \<and> c \<noteq> 0x5C \<and> \<not> c < 0x20" and pd: "d \<noteq> 0x22 \<and> d \<noteq> 0x5C \<and> \<not> d < 0x20"
      using surrogate_plain [of c] surrogate_plain [of d] by blast+
    have "parseChars (quoteUnits (c # d # cs) @ 0x22 # rest) =
        parseChars (c # d # quoteUnits cs @ 0x22 # rest)"
      using True by (simp del: parseChars.simps)
    also have "\<dots> = consUnit c (parseChars (d # quoteUnits cs @ 0x22 # rest))"
      using pc by (intro parseChars_plain) simp_all
    also have "\<dots> = consUnit c (consUnit d (parseChars (quoteUnits cs @ 0x22 # rest)))"
      using pd parseChars_plain [of d "quoteUnits cs @ 0x22 # rest"] by simp
    also have "\<dots> = Some (c # d # cs, rest)"
      using 3(1) [OF True] by (simp add: consUnit_def)
    finally show ?thesis .
  next
    case False
    have "parseChars (quoteUnits (c # d # cs) @ 0x22 # rest) =
        parseChars (quoteUnit c @ (quoteUnits (d # cs) @ 0x22 # rest))"
      by (simp only: quoteUnits.simps False if_False append_assoc)
    also have "\<dots> = consUnit c (parseChars (quoteUnits (d # cs) @ 0x22 # rest))"
      by (rule parseChars_quoteUnit)
    also have "\<dots> = Some (c # d # cs, rest)"
      using 3(2) [OF False] by (simp add: consUnit_def)
    finally show ?thesis .
  qed
qed

lemma parseValue_QuoteJSONString:
  "parseValue (QuoteJSONString s @ rest) = Some (JString s, rest)"
  by (simp add: QuoteJSONString_def parseValue.simps parseChars_quoteUnits)

lemma QuoteJSONString_nonempty: "QuoteJSONString s \<noteq> []"
  by (simp add: QuoteJSONString_def)

lemma parseElements_joinComma:
  "parseElements (joinComma (map QuoteJSONString (x # xs)) @ 0x5D # rest) =
     Some (map JString (x # xs), rest)"
proof (induction xs arbitrary: x)
  case Nil
  have "parseElements (QuoteJSONString x @ 0x5D # rest) = Some ([JString x], rest)"
    by (subst parseElements.simps)
      (simp add: parseValue_QuoteJSONString QuoteJSONString_nonempty isWhitespace_def)
  then show ?case by simp
next
  case (Cons y ys)
  have q: "skipWhitespace (QuoteJSONString y @ r) = QuoteJSONString y @ r" for r
    by (simp add: QuoteJSONString_def isWhitespace_def)
  have sk: "skipWhitespace (joinComma (map QuoteJSONString (y # ys)) @ 0x5D # rest) =
      joinComma (map QuoteJSONString (y # ys)) @ 0x5D # rest"
    by (cases ys) (simp_all add: q)
  have "parseElements (QuoteJSONString x @ 0x2C # joinComma (map QuoteJSONString (y # ys)) @ 0x5D # rest) =
      Some (JString x # map JString (y # ys), rest)"
    by (subst parseElements.simps)
      (simp add: parseValue_QuoteJSONString QuoteJSONString_nonempty isWhitespace_def sk Cons.IH
        del: joinComma.simps list.map)
  then show ?case by simp
qed

lemma JSON_parse_stringify:
  "JSON_parse (JSON_stringify xs) = Inr (JArray (map JString xs))"
proof (cases xs)
  case Nil
  then show ?thesis
    by (simp add: JSON_parse_def JSON_stringify_def parseValue.simps isWhitespace_def)
next
  case (Cons y ys)
  have first: "\<exists>t. joinComma (map QuoteJSONString (y # ys)) @ [0x5D] = 0x22 # t"
    by (cases ys) (simp_all add: QuoteJSONString_def)
  then obtain t where t: "joinComma (map QuoteJSONString (y # ys)) @ [0x5D] = 0x22 # t" ..
  have pe: "parseElements (0x22 # t) = Some (map JString (y # ys), [])"
    using parseElements_joinComma [of y ys "[]"] t by simp
  have "parseValue (0x5B # 0x22 # t) = Some (JArray (map JString (y # ys)), [])"
    by (subst parseValue.simps) (simp add: isWhitespace_def pe)
  then show ?thesis using Cons t
    by (simp add: JSON_parse_def JSON_stringify_def isWhitespace_def del: joinComma.simps list.map)
qed

text \<open>
  C8.  For every list of dependency ids, serialising the list with
  \<open>stringifyDependencies\<close> and reading the text back with \<open>parseDependencies\<close> yields
  the array of exactly those strings, in the same order.
\<close>

theorem dependencies_round_trip:
  "parseDependencies (stringifyDependencies ids) = JArray (map JString ids)"
  by (simp add: parseDependencies_def stringifyDependencies_def JSON_parse_stringify)

text \<open>
  C10.  \<open>parseDependencies\<close> returns a value for every input string: where
  \<open>JSON.parse\<close> throws, the result is the empty array, and otherwise it is the parsed
  value.  A stored dependency field that is not valid JSON is thus read back as an empty
  dependency list.
\<close>

theorem parseDependencies_total:
  "(JSON_parse s = Inl e \<longrightarrow> parseDependencies s = JArray []) \<and>
   (JSON_parse s = Inr v \<longrightarrow> parseDependencies s = v)"
  by (simp add: parseDependencies_def)

theorem parseDependencies_total_witness:
  "JSON_parse [0x5B, 0x22, 0x61, 0x22] = Inl SyntaxError \<and>
   parseDependencies [0x5B, 0x22, 0x61, 0x22] = JArray [] \<and>
   JSON_parse [0x5B, 0x22, 0x61, 0x22, 0x5D] = Inr (JArray [JString [0x61]]) \<and>
   parseDependencies [0x5B, 0x22, 0x61, 0x22, 0x5D] = JArray [JString [0x61]]"
proof -
  have bad: "JSON_parse [0x5B, 0x22, 0x61, 0x22] = Inl SyntaxError"
    by (simp add: JSON_parse_def parseValue.simps parseElements.simps isWhitespace_def
        consUnit_def)
  have good: "JSON_parse [0x5B, 0x22, 0x61, 0x22, 0x5D] = Inr (JArray [JString [0x61]])"
    by (simp add: JSON_parse_def parseValue.simps parseElements.simps isWhitespace_def
        consUnit_def)
  show ?thesis
    using parseDependencies_total [of "[0x5B, 0x22, 0x61, 0x22]" SyntaxError]
      parseDependencies_total [of "[0x5B, 0x22, 0x61, 0x22, 0x5D]" _ "JArray [JString [0x61]]"]
      bad good
    by simp
qed

section \<open>One poll tick: order of admission and of the status write\<close>

lemma admitOne_pool:
  "admitOne db t w = Inr (a, w1) \<Longrightarrow>
   workerPool w1 = snd (executeTask (t\<lparr>status := RUNNING\<rparr>) (workerPool w)) \<and>
   a = fst (executeTask (t\<lparr>status := RUNNING\<rparr>) (workerPool w)) \<and>
   (\<exists>st. update db (task_id t) RUNNING (store w) = Inr st \<and> store w1 = st) \<and>
   ticks w1 = ticks w \<and> pollTimeouts w1 = pollTimeouts w \<and> isRunning w1 = isRunning w \<and>
   dependencyResolver w1 = dependencyResolver w"
  by (auto simp add: admitOne_def Let_def split: sum.splits prod.splits)

lemma admit_Cons_admitted:
  "hasCapacity (workerPool w) \<Longrightarrow> admitOne db t w = Inr (a, w1) \<Longrightarrow>
   admit db (t # ts) w =
     (fst (admit db ts w1),
      Persisted (task_id t) RUNNING # Submitted (t\<lparr>status := RUNNING\<rparr>) a #
        fst (snd (admit db ts w1)),
      snd (snd (admit db ts w1)))"
  by (simp add: Let_def case_prod_beta)

lemma admit_Cons_failed:
  "hasCapacity (workerPool w) \<Longrightarrow> admitOne db t w = Inl e \<Longrightarrow>
   admit db (t # ts) w = (Some e, [PersistFailed (task_id t) RUNNING e], w)"
  by simp

lemma admit_Cons_full:
  "\<not> hasCapacity (workerPool w) \<Longrightarrow> admit db (t # ts) w = (None, [], w)"
  by simp

lemma admit_shape: "write_then_submit (fst (snd (admit db ts w)))"
proof (induction ts arbitrary: w)
  case Nil
  show ?case by simp
next
  case (Cons t ts)
  show ?case
  proof (cases "hasCapacity (workerPool w)")
    case False
    then show ?thesis by simp
  next
    case True
    show ?thesis
    proof (cases "admitOne db t w")
      case (Inl e)
      then show ?thesis using True by simp
    next
      case (Inr r)
      obtain a w1 where r: "r = (a, w1)" by (cases r)
      show ?thesis using Cons.IH [of w1]
        by (simp add: admit_Cons_admitted [OF True Inr [unfolded r]] del: admit.simps)
    qed
  qed
qed

lemma admit_pool:
  "workerPool (snd (snd (admit db ts w))) =
     foldl (\<lambda>p t. snd (executeTask t p)) (workerPool w) (submitted (fst (snd (admit db ts w))))"
proof (induction ts arbitrary: w)
  case Nil
  show ?case by simp
next
  case (Cons t ts)
  show ?case
  proof (cases "hasCapacity (workerPool w)")
    case False
    then show ?thesis by simp
  next
    case True
    show ?thesis
    proof (cases "admitOne db t w")
      case (Inl e)
      then show ?thesis using True by simp
    next
      case (Inr r)
      obtain a w1 where r: "r = (a, w1)" by (cases r)
      show ?thesis using Cons.IH [of w1] admitOne_pool [OF Inr [unfolded r]]
        by (simp add: admit_Cons_admitted [OF True Inr [unfolded r]] del: admit.simps)
    qed
  qed
qed



lemma admit_failure:
  "PersistFailed i st e \<in> set (fst (snd (admit db ts w))) \<Longrightarrow>
   fst (admit db ts w) = Some e \<and> last (fst (snd (admit db ts w))) = PersistFailed i st e"
proof (induction ts arbitrary: w)
  case Nil
  then show ?case by simp
next
  case (Cons t ts)
  show ?case
  proof (cases "hasCapacity (workerPool w)")
    case False
    then show ?thesis using Cons.prems by simp
  next
    case True
    show ?thesis
    proof (cases "admitOne db t w")
      case (Inl e')
      then show ?thesis using True Cons.prems by simp
    next
      case (Inr r)
      obtain a w1 where r: "r = (a, w1)" by (cases r)
      have mem: "PersistFailed i st e \<in> set (fst (snd (admit db ts w1)))"
        using Cons.prems
        by (simp add: admit_Cons_admitted [OF True Inr [unfolded r]] del: admit.simps)
      then have "fst (snd (admit db ts w1)) \<noteq> []" by auto
      with Cons.IH [OF mem] show ?thesis
        by (simp add: admit_Cons_admitted [OF True Inr [unfolded r]] del: admit.simps)
    qed
  qed
qed

lemma executeTask_ids:
  "set (getRunningTaskIds (snd (executeTask t p))) \<subseteq> insert (task_id t) (set (getRunningTaskIds p))"
proof (cases "hasCapacity p \<and> task_id t \<notin> set (getRunningTaskIds p)")
  case True
  then have "getRunningTaskIds (snd (executeTask t p)) = getRunningTaskIds p @ [task_id t]"
    by (simp add: executeTask_accepted getRunningTaskIds_def AList.update_keys)
  then show ?thesis by auto
next
  case False
  then have "executeTask t p = (False, p)" by (intro executeTask_rejected) blast
  then show ?thesis by auto
qed






text \<open>
  On a task whose dependencies are an array of strings, as the interface declares them,
  the resolver at run time answers what \<open>isEligibleToRun\<close> answers.
\<close>

lemma isEligibleToRun_parsed_declared:
  "isEligibleToRun_parsed r (parsedTask t) = Inr (isEligibleToRun r t)"
proof (cases "dependencies t = []")
  case True
  then show ?thesis
    by (simp add: isEligibleToRun_parsed_def isEligibleToRun_def parsedTask_def falsy_def
        lengthIsZero_def)
next
  case False
  have "list_all (\<lambda>depId. case depId of JString s \<Rightarrow> s \<in> completedTaskIds r | _ \<Rightarrow> False)
      (map JString ds) = list_all (\<lambda>depId. depId \<in> completedTaskIds r) ds" for ds
    by (induction ds) simp_all
  then show ?thesis using False
    by (simp add: isEligibleToRun_parsed_def isEligibleToRun_def parsedTask_def falsy_def
        lengthIsZero_def everyCompleted_def)
qed

lemma memory_update_status:
  "memory_update i st rows = Inr rows' \<Longrightarrow> memory_status rows' = (memory_status rows)(i \<mapsto> st)"
proof -
  assume u: "memory_update i st rows = Inr rows'"
  then have mem: "i \<in> row_id ` set rows"
    and rows': "rows' = map (\<lambda>r. if row_id r = i then r\<lparr>row_status := st\<rparr> else r) rows"
    by (auto simp add: memory_update_def split: if_splits)
  have "memory_status (map (\<lambda>r. if row_id r = i then r\<lparr>row_status := st\<rparr> else r) rs) j =
      (if j = i \<and> i \<in> row_id ` set rs then Some st else memory_status rs j)" for rs j
    by (induction rs) (auto simp add: memory_status_def)
  then show ?thesis using mem rows' by (auto simp add: fun_eq_iff)
qed

lemma writes_status_flaky: "writes_status (flaky_prisma bad) memory_status"
  by (auto simp add: writes_status_def flaky_prisma_def memory_update_status split: if_splits)

section \<open>Poll ticks on the event loop\<close>

lemma armPollTimer_fields:
  "ticks (armPollTimer w) = ticks w" "isRunning (armPollTimer w) = isRunning w"
  "length (pollTimeouts (armPollTimer w)) = Suc (length (pollTimeouts w))"
  by (simp_all add: armPollTimer_def)

lemma single_chain_pollEnter:
  "isRunning w \<Longrightarrow> ticks w = [] \<Longrightarrow> pollTimeouts w = [] \<Longrightarrow> single_chain (pollEnter w)"
  by (simp add: single_chain_def pollEnter_def armPollTimer_fields)

lemma single_chain_admitNext:
  "isRunning w \<Longrightarrow> ticks w = [] \<Longrightarrow> pollTimeouts w = [] \<Longrightarrow> single_chain (admitNext ts w)"
  by (simp add: single_chain_def admitNext_def armPollTimer_fields split: list.splits)

lemma single_chain_armPollTimer:
  "isRunning w \<Longrightarrow> ticks w = [] \<Longrightarrow> pollTimeouts w = [] \<Longrightarrow> single_chain (armPollTimer w)"
  by (simp add: single_chain_def armPollTimer_fields)

lemma single_chain_tickResumes: "single_chain w \<Longrightarrow> single_chain (tickResumes db k w)"
proof (cases "k < length (ticks w)")
  case False
  assume "single_chain w"
  then show ?thesis using False by (simp add: tickResumes_def)
next
  case True
  assume inv: "single_chain w"
  then have "length (ticks w) = 1 \<and> length (pollTimeouts w) = 0 \<and> k = 0"
    using True unfolding single_chain_def by arith
  then have one: "length (ticks w) = 1" "pollTimeouts w = []" "k = 0" "isRunning w"
    using inv by (simp_all add: single_chain_def)
  let ?w0 = "w\<lparr>ticks := removeAt k (ticks w)\<rparr>"
  have w0: "isRunning ?w0" "ticks ?w0 = []" "pollTimeouts ?w0 = []"
    using one by (simp_all add: removeAt_def)
  show ?thesis
  proof (cases "ticks w ! k")
    case AwaitFindMany
    then show ?thesis using True w0
      by (auto simp add: tickResumes_def Let_def single_chain_admitNext single_chain_armPollTimer
          split: sum.splits)
  next
    case (AwaitUpdate t rest)
    show ?thesis
    proof (cases "admitOne db t ?w0")
      case (Inl e)
      then show ?thesis using True w0 AwaitUpdate
        by (simp add: tickResumes_def Let_def single_chain_armPollTimer)
    next
      case (Inr r)
      obtain a w1 where r: "r = (a, w1)" by (cases r)
      from admitOne_pool [OF Inr [unfolded r]] w0
      have "isRunning w1" "ticks w1 = []" "pollTimeouts w1 = []" by simp_all
      then have "single_chain (admitNext rest w1)" by (rule single_chain_admitNext)
      then show ?thesis using True AwaitUpdate Inr r by (simp add: tickResumes_def Let_def)
    qed
  qed
qed

lemma single_chain_pollTimeoutFires: "single_chain w \<Longrightarrow> single_chain (pollTimeoutFires h w)"
proof (cases "h \<in> set (pollTimeouts w)")
  case False
  assume "single_chain w"
  then show ?thesis using False by (simp add: pollTimeoutFires_def)
next
  case True
  assume inv: "single_chain w"
  have "0 < length (pollTimeouts w)" using True by (rule length_pos_if_in_set)
  with inv have "length (pollTimeouts w) = 1 \<and> length (ticks w) = 0"
    unfolding single_chain_def by arith
  then have "length (pollTimeouts w) = 1" "ticks w = []" "isRunning w"
    using inv by (simp_all add: single_chain_def)
  then have "pollTimeouts w = [h]" using True by (cases "pollTimeouts w") auto
  then show ?thesis using True \<open>ticks w = []\<close> \<open>isRunning w\<close>
    by (simp add: pollTimeoutFires_def single_chain_pollEnter)
qed

lemma single_chain_taskTimeoutFires: "single_chain w \<Longrightarrow> single_chain (taskTimeoutFires h w)"
  by (simp add: single_chain_def taskTimeoutFires_def split: option.splits)

lemma single_chain_step:
  "single_chain w \<Longrightarrow> timer_driven ev \<Longrightarrow> single_chain (loop_step db w ev)"
  by (cases ev)
    (simp_all add: single_chain_tickResumes single_chain_pollTimeoutFires
      single_chain_taskTimeoutFires)

lemma single_chain_run:
  "single_chain w \<Longrightarrow> \<forall>ev \<in> set evs. timer_driven ev \<Longrightarrow> single_chain (loop_run db w evs)"
  unfolding loop_run_def
  by (induction evs arbitrary: w) (simp_all add: single_chain_step)

lemma single_chain_start: "single_chain (start db (new_TaskScheduler m st))"
proof -
  have "single_chain (pollEnter w)" if "isRunning w" "ticks w = []" "pollTimeouts w = []" for w :: "'a system"
    using that by (rule single_chain_pollEnter)
  then show ?thesis
    by (simp add: start_def new_TaskScheduler_def Let_def split: sum.splits)
qed

text \<open>
  C6, as the specification words it: poll ticks never overlap, and a completion-triggered
  extra tick is coalesced with a scheduled one.  \<open>handleTaskCompleted\<close> calls \<open>poll\<close>
  with no test for a tick in flight.  One task, a pool of size one: the first tick admits
  the task; its timer fires and the completion handler waits for its write; the poll timer
  fires and the scheduled tick waits for its query; the handler resumes and calls
  \<open>poll\<close>.  Two ticks are now in flight, and when both have finished two poll timers are
  armed.
\<close>

theorem completion_tick_overlaps_scheduled_tick:
  "ticks (loop_run memory_prisma (started_scheduler 1 late_early_rows)
      [TickResumes 0, TickResumes 0, TaskTimeoutFires 0, PollTimeoutFires 0,
       CompletionResumes 0]) = [AwaitFindMany, AwaitFindMany] \<and>
   pollTimeouts (loop_run memory_prisma (started_scheduler 1 late_early_rows)
      [TickResumes 0, TickResumes 0, TaskTimeoutFires 0, PollTimeoutFires 0,
       CompletionResumes 0, TickResumes 0, TickResumes 0, TickResumes 0, TickResumes 0]) = [1, 2]"
  by code_simp

text \<open>
  C6, amended.  In the timer-driven chain poll ticks never overlap: a call of \<open>poll\<close> arms
  the next timer only on its way out, after its query, filter and admission pass have
  ended, so as long as no completion handler resumes, exactly one tick is in flight or
  exactly one poll timer is armed, never both.  The extra tick a completion triggers is
  not coalesced: it starts as soon as the handler's write of COMPLETED has succeeded,
  whether or not another tick is in flight, and arms a timer of its own.
\<close>

theorem timer_chain_never_overlaps:
  "(\<forall>ev \<in> set evs. timer_driven ev) \<longrightarrow>
   length (ticks (loop_run db (start db (new_TaskScheduler m st)) evs)) +
   length (pollTimeouts (loop_run db (start db (new_TaskScheduler m st)) evs)) = 1"
  using single_chain_run [OF single_chain_start, of evs db db m st]
  by (simp add: single_chain_def)


theorem timer_chain_never_overlaps_witness:
  "list_all timer_driven [TickResumes 0, TickResumes 0, TaskTimeoutFires 0, PollTimeoutFires 0] \<and>
   ticks (loop_run memory_prisma (start memory_prisma (new_TaskScheduler 1 late_early_rows))
      [TickResumes 0, TickResumes 0, TaskTimeoutFires 0, PollTimeoutFires 0]) = [AwaitFindMany] \<and>
   pollTimeouts (loop_run memory_prisma (start memory_prisma (new_TaskScheduler 1 late_early_rows))
      [TickResumes 0, TickResumes 0, TaskTimeoutFires 0, PollTimeoutFires 0]) = []"
proof -
  have t: "\<forall>ev \<in> set [TickResumes 0, TickResumes 0, TaskTimeoutFires 0, PollTimeoutFires 0].
      timer_driven ev" by simp
  have k: "ticks (loop_run memory_prisma (start memory_prisma (new_TaskScheduler 1 late_early_rows))
      [TickResumes 0, TickResumes 0, TaskTimeoutFires 0, PollTimeoutFires 0]) = [AwaitFindMany]"
    by code_simp
  show ?thesis
    using timer_chain_never_overlaps
        [where evs = "[TickResumes 0, TickResumes 0, TaskTimeoutFires 0, PollTimeoutFires 0]"
          and db = memory_prisma and m = 1 and st = late_early_rows] t k
    by simp
qed

section \<open>The tick on the event loop and the tick run without interruption\<close>

text \<open>
  \<open>admit\<close>, \<open>processEligibleTasks\<close> and \<open>poll\<close> run a tick from its first statement to
  its last.  On the event loop the same tick is a call of \<open>poll\<close> that is suspended at
  each \<open>await\<close>: at \<open>findMany\<close>, and in the admission loop at \<open>update\<close>, between the
  capacity test and \<open>executeTask\<close>.  When nothing else runs in between, that is, when the
  suspended call is resumed again and again until it returns, the state it leaves is the
  state the uninterrupted tick leaves, with the poll timer armed.  The call that was
  suspended last sits at the end of \<open>ticks\<close>, so it is resumed at the same index every
  time.
\<close>

lemma removeAt_last: "removeAt (length xs) (xs @ [x]) = xs"
  by (simp add: removeAt_def)

lemma system_ticks_same: "w\<lparr>ticks := ticks w\<rparr> = w"
  by simp

lemma tickResumes_last_update:
  "tickResumes db (length (ticks w)) (w\<lparr>ticks := ticks w @ [AwaitUpdate t rest]\<rparr>) =
     (case admitOne db t w of
        Inl e \<Rightarrow> armPollTimer w
      | Inr (accepted, w1) \<Rightarrow> admitNext rest w1)"
  by (simp add: tickResumes_def removeAt_last Let_def)

lemma tickResumes_last_find:
  "tickResumes db (length (ticks w)) (w\<lparr>ticks := ticks w @ [AwaitFindMany]\<rparr>) =
     (case fetchEligible db w of
        Inl e \<Rightarrow> armPollTimer w
      | Inr eligibleTasks \<Rightarrow> admitNext eligibleTasks w)"
proof -
  have "fetchEligible db (w\<lparr>ticks := ticks w\<rparr>) = fetchEligible db w" by simp
  then show ?thesis by (simp add: tickResumes_def removeAt_last Let_def)
qed

lemma admitNext_runs_as_admit:
  "\<exists>n. ((tickResumes db (length (ticks w))) ^^ n) (admitNext ts w) =
     armPollTimer (snd (snd (admit db ts w)))"
proof (induction ts arbitrary: w)
  case Nil
  have "((tickResumes db (length (ticks w))) ^^ 0) (admitNext [] w) =
      armPollTimer (snd (snd (admit db [] w)))"
    by (simp add: admitNext_def)
  then show ?case by blast
next
  case (Cons t ts)
  show ?case
  proof (cases "hasCapacity (workerPool w)")
    case False
    then have "((tickResumes db (length (ticks w))) ^^ 0) (admitNext (t # ts) w) =
        armPollTimer (snd (snd (admit db (t # ts) w)))"
      by (simp add: admitNext_def)
    then show ?thesis by blast
  next
    case True
    then have susp: "admitNext (t # ts) w = w\<lparr>ticks := ticks w @ [AwaitUpdate t ts]\<rparr>"
      by (simp add: admitNext_def)
    show ?thesis
    proof (cases "admitOne db t w")
      case (Inl e)
      then have "((tickResumes db (length (ticks w))) ^^ 1) (admitNext (t # ts) w) =
          armPollTimer (snd (snd (admit db (t # ts) w)))"
        using True by (simp add: susp tickResumes_last_update)
      then show ?thesis by blast
    next
      case (Inr r)
      obtain a w1 where r: "r = (a, w1)" by (cases r)
      have tk: "ticks w1 = ticks w" using admitOne_pool [OF Inr [unfolded r]] by simp
      from Cons.IH [of w1] obtain n where
        n: "((tickResumes db (length (ticks w1))) ^^ n) (admitNext ts w1) =
          armPollTimer (snd (snd (admit db ts w1)))" ..
      have one: "tickResumes db (length (ticks w)) (admitNext (t # ts) w) = admitNext ts w1"
        using Inr r by (simp add: susp tickResumes_last_update)
      have "((tickResumes db (length (ticks w))) ^^ Suc n) (admitNext (t # ts) w) =
          armPollTimer (snd (snd (admit db (t # ts) w)))"
        using n one tk
        by (simp add: funpow_swap1 admit_Cons_admitted [OF True Inr [unfolded r]] del: admit.simps)
      then show ?thesis by blast
    qed
  qed
qed

lemma poll_runs_as_tick:
  assumes "isRunning w"
  shows "\<exists>n. ((tickResumes db (length (ticks w))) ^^ n) (pollEnter w) = snd (poll db w)"
proof (cases "hasCapacity (workerPool w)")
  case False
  then have "((tickResumes db (length (ticks w))) ^^ 0) (pollEnter w) = snd (poll db w)"
    using assms by (simp add: pollEnter_def poll_def)
  then show ?thesis by blast
next
  case True
  then have enter: "pollEnter w = w\<lparr>ticks := ticks w @ [AwaitFindMany]\<rparr>"
    using assms by (simp add: pollEnter_def)
  show ?thesis
  proof (cases "fetchEligible db w")
    case (Inl e)
    then have "((tickResumes db (length (ticks w))) ^^ 1) (pollEnter w) = snd (poll db w)"
      using True assms
      by (simp add: enter tickResumes_last_find poll_def processEligibleTasks_def)
    then show ?thesis by blast
  next
    case (Inr el)
    from admitNext_runs_as_admit [of db w el] obtain n where
      n: "((tickResumes db (length (ticks w))) ^^ n) (admitNext el w) =
        armPollTimer (snd (snd (admit db el w)))" ..
    have one: "tickResumes db (length (ticks w)) (pollEnter w) = admitNext el w"
      using Inr by (simp add: enter tickResumes_last_find)
    have "((tickResumes db (length (ticks w))) ^^ Suc n) (pollEnter w) = snd (poll db w)"
      using n one True assms Inr
      by (simp add: funpow_swap1 poll_def processEligibleTasks_def case_prod_beta)
    then show ?thesis by blast
  qed
qed

text \<open>
  One resumption of a suspended call, whatever else is in flight.  Resumed at \<open>findMany\<close>,
  the call suspends again at the write for the first eligible task if the pool has
  capacity at that moment.  Resumed at a write that failed, it leaves store and pool as
  they are and returns.  Resumed at a write that succeeded, it hands the task to
  \<open>executeTask\<close> without a further capacity test, and suspends at the write for the next
  task if the pool still has capacity.
\<close>

lemma armPollTimer_same: "store (armPollTimer w) = store w" "workerPool (armPollTimer w) = workerPool w"
  by (simp_all add: armPollTimer_def)

lemma pollEnter_same: "store (pollEnter w) = store w" "workerPool (pollEnter w) = workerPool w"
  by (simp_all add: pollEnter_def armPollTimer_def)

lemma admitNext_same: "store (admitNext ts w) = store w" "workerPool (admitNext ts w) = workerPool w"
  by (simp_all add: admitNext_def armPollTimer_def split: list.splits)

lemma tickResumes_update_failed:
  assumes "k < length (ticks w)" and "ticks w ! k = AwaitUpdate task rest"
    and "update db (task_id task) RUNNING (store w) = Inl e"
  shows "workerPool (tickResumes db k w) = workerPool w \<and>
     store (tickResumes db k w) = store w \<and>
     ticks (tickResumes db k w) = removeAt k (ticks w)"
  using assms by (simp add: tickResumes_def admitOne_def armPollTimer_def Let_def)

lemma tickResumes_update_done:
  assumes "k < length (ticks w)" and "ticks w ! k = AwaitUpdate task rest"
    and "update db (task_id task) RUNNING (store w) = Inr s'"
  shows "store (tickResumes db k w) = s' \<and>
     workerPool (tickResumes db k w) =
       snd (executeTask (task\<lparr>status := RUNNING\<rparr>) (workerPool w))"
  using assms
  by (simp add: tickResumes_def admitOne_def Let_def case_prod_beta admitNext_same)



section \<open>The persisted status and the pool on the event loop\<close>

text \<open>
  Every step of the event loop keeps \<open>not_behind\<close>: a task is put into the active-run
  table only by a resumption whose write of RUNNING for its id has just succeeded, the
  only other write of the scheduler stores COMPLETED, and a firing task timer removes an
  id from the table.  Ticks and completion handlers may interleave in any way.
\<close>

lemma not_behind_iff:
  "not_behind persisted w =
     (\<forall>i \<in> set (getRunningTaskIds (workerPool w)).
        \<exists>st. persisted (store w) i = Some st \<and> 1 \<le> stage st)"
  by (auto simp add: not_behind_def list_all_iff split: option.splits)

lemma timeoutFires_ids:
  "set (getRunningTaskIds (timeoutFires h p)) \<subseteq> set (getRunningTaskIds p)"
  by (auto simp add: timeoutFires_def getRunningTaskIds_def emit_def Let_def AList.delete_eq
      split: option.splits)

lemma not_behind_same:
  "store w' = store w \<Longrightarrow> workerPool w' = workerPool w \<Longrightarrow>
   not_behind persisted w \<Longrightarrow> not_behind persisted w'"
  by (simp add: not_behind_def)

lemma not_behind_admitOne:
  assumes "writes_status db persisted" and "not_behind persisted w"
    and "admitOne db t w = Inr (a, w1)"
  shows "not_behind persisted w1"
proof -
  from admitOne_pool [OF assms(3)] obtain st where
    st: "update db (task_id t) RUNNING (store w) = Inr st" "store w1 = st"
    and p: "workerPool w1 = snd (executeTask (t\<lparr>status := RUNNING\<rparr>) (workerPool w))"
    by blast
  from assms(1) st have rd: "persisted (store w1) = (persisted (store w))(task_id t \<mapsto> RUNNING)"
    by (simp add: writes_status_def)
  show ?thesis
    unfolding not_behind_iff
  proof
    fix i assume "i \<in> set (getRunningTaskIds (workerPool w1))"
    then have "i = task_id t \<or> i \<in> set (getRunningTaskIds (workerPool w))"
      using executeTask_ids [of "t\<lparr>status := RUNNING\<rparr>" "workerPool w"] p by auto
    then show "\<exists>st. persisted (store w1) i = Some st \<and> 1 \<le> stage st"
      using assms(2) rd by (auto simp add: not_behind_iff)
  qed
qed

lemma not_behind_tickResumes:
  assumes "writes_status db persisted" and "not_behind persisted w"
  shows "not_behind persisted (tickResumes db k w)"
proof (cases "k < length (ticks w)")
  case False
  then show ?thesis using assms(2) by (simp add: tickResumes_def)
next
  case True
  let ?w0 = "w\<lparr>ticks := removeAt k (ticks w)\<rparr>"
  have w0: "not_behind persisted ?w0" using assms(2) by (simp add: not_behind_def)
  show ?thesis
  proof (cases "ticks w ! k")
    case AwaitFindMany
    have "not_behind persisted (armPollTimer ?w0)"
      using w0 by (rule not_behind_same [rotated 2]) (simp_all add: armPollTimer_same)
    moreover have "not_behind persisted (admitNext ts ?w0)" for ts
      using w0 by (rule not_behind_same [rotated 2]) (simp_all add: admitNext_same)
    ultimately show ?thesis using True AwaitFindMany
      by (simp add: tickResumes_def Let_def split: sum.splits)
  next
    case (AwaitUpdate t rest)
    show ?thesis
    proof (cases "admitOne db t ?w0")
      case (Inl e)
      have "not_behind persisted (armPollTimer ?w0)"
        using w0 by (rule not_behind_same [rotated 2]) (simp_all add: armPollTimer_same)
      then show ?thesis using True AwaitUpdate Inl by (simp add: tickResumes_def Let_def)
    next
      case (Inr r)
      obtain a w1 where r: "r = (a, w1)" by (cases r)
      have "not_behind persisted w1"
        using not_behind_admitOne [OF assms(1) w0 Inr [unfolded r]] .
      then have "not_behind persisted (admitNext rest w1)"
        by (rule not_behind_same [rotated 2]) (simp_all add: admitNext_same)
      then show ?thesis using True AwaitUpdate Inr r by (simp add: tickResumes_def Let_def)
    qed
  qed
qed

lemma not_behind_pollTimeoutFires:
  "not_behind persisted w \<Longrightarrow> not_behind persisted (pollTimeoutFires h w)"
proof (cases "h \<in> set (pollTimeouts w)")
  case False
  assume "not_behind persisted w"
  then show ?thesis using False by (simp add: pollTimeoutFires_def)
next
  case True
  assume a: "not_behind persisted w"
  have "not_behind persisted (pollEnter (w\<lparr>pollTimeouts := removeAll h (pollTimeouts w)\<rparr>))"
    using a by (rule not_behind_same [rotated 2]) (simp_all add: pollEnter_same)
  then show ?thesis using True by (simp add: pollTimeoutFires_def)
qed

lemma not_behind_taskTimeoutFires:
  "not_behind persisted w \<Longrightarrow> not_behind persisted (taskTimeoutFires h w)"
  using timeoutFires_ids [of h "workerPool w"]
  by (auto simp add: taskTimeoutFires_def not_behind_iff split: option.splits)

lemma not_behind_completionResumes:
  assumes "writes_status db persisted" and "not_behind persisted w"
  shows "not_behind persisted (completionResumes db k w)"
proof (cases "k < length (completions w)")
  case False
  then show ?thesis using assms(2) by (simp add: completionResumes_def)
next
  case True
  let ?t = "completions w ! k"
  let ?w0 = "w\<lparr>completions := removeAt k (completions w)\<rparr>"
  show ?thesis
  proof (cases "update db (task_id ?t) COMPLETED (store w)")
    case (Inl e)
    then show ?thesis using True assms(2)
      by (simp add: completionResumes_def Let_def not_behind_def)
  next
    case (Inr st)
    let ?w1 = "?w0\<lparr>store := st,
        dependencyResolver := registerCompletedTask (task_id ?t) (dependencyResolver ?w0)\<rparr>"
    from assms(1) Inr have rd: "persisted st = (persisted (store w))(task_id ?t \<mapsto> COMPLETED)"
      by (simp add: writes_status_def)
    have "not_behind persisted ?w1"
      using assms(2) rd by (auto simp add: not_behind_iff)
    then have "not_behind persisted (pollEnter ?w1)"
      by (rule not_behind_same [rotated 2]) (simp_all add: pollEnter_same)
    then show ?thesis using True Inr by (simp add: completionResumes_def Let_def)
  qed
qed

lemma not_behind_step:
  "writes_status db persisted \<Longrightarrow> not_behind persisted w \<Longrightarrow>
   not_behind persisted (loop_step db w ev)"
  by (cases ev)
    (simp_all add: not_behind_tickResumes not_behind_pollTimeoutFires
      not_behind_taskTimeoutFires not_behind_completionResumes)

lemma not_behind_run:
  "writes_status db persisted \<Longrightarrow> not_behind persisted w \<Longrightarrow>
   not_behind persisted (loop_run db w evs)"
  unfolding loop_run_def
  by (induction evs arbitrary: w) (simp_all add: not_behind_step)

lemma not_behind_start: "not_behind persisted (start db (new_TaskScheduler m st))"
proof -
  have "getRunningTaskIds (workerPool (start db (new_TaskScheduler m st))) = []"
    by (simp add: start_def new_TaskScheduler_def new_WorkerPool_def getRunningTaskIds_def
        pollEnter_same Let_def split: sum.splits)
  then show ?thesis by (simp add: not_behind_def)
qed

section \<open>Admission and the status write: the tick and the event loop\<close>


lemma tick_write_first:
  assumes "processEligibleTasks db w = (err, effs, w')"
  shows "write_then_submit effs \<and>
     workerPool w' = foldl (\<lambda>p t. snd (executeTask t p)) (workerPool w) (submitted effs) \<and>
     (\<forall>i st e. PersistFailed i st e \<in> set effs \<longrightarrow> err = Some e \<and> last effs = PersistFailed i st e)"
proof (cases "fetchEligible db w")
  case (Inl e)
  with assms show ?thesis by (auto simp add: processEligibleTasks_def)
next
  case (Inr el)
  with assms have run: "admit db el w = (err, effs, w')" by (simp add: processEligibleTasks_def)
  then have parts: "fst (admit db el w) = err" "fst (snd (admit db el w)) = effs"
    "snd (snd (admit db el w)) = w'" by simp_all
  show ?thesis
    using admit_shape [of db el w] admit_pool [of db el w] admit_failure [of _ _ _ db el w] parts
    by auto
qed




text \<open>
  C5.  In a poll tick every submission to the pool directly follows a successful write of
  RUNNING for the same task id, and the pool receives exactly the submitted tasks.  A
  failed status write is the last effect of the tick and is the error the tick ends with:
  the task whose write failed, and every task after it, is not submitted in that tick.
  The same holds for a call of \<open>poll\<close> on the event loop, whatever runs while it is
  suspended: resumed at a write that succeeded, it finds the store with that write made
  and then hands the task to the pool; resumed at a write that failed, it leaves the pool
  and the store as they are and ends.  Hence the persisted status is never behind the
  pool: for any way of reading a status out of the store that \<open>update\<close> honours, after
  any sequence of events of the event loop of a started scheduler (poll timers, task
  timers, and resumptions of ticks and of completion handlers, interleaved in any way),
  every id in the active-run table has a stored status of RUNNING or later.
\<close>

theorem status_written_before_submission:
  "(case processEligibleTasks db w of
      (err, effs, w') \<Rightarrow>
        write_then_submit effs \<and>
        workerPool w' = foldl (\<lambda>p t. snd (executeTask t p)) (workerPool w) (submitted effs) \<and>
        (\<forall>i st e. PersistFailed i st e \<in> set effs \<longrightarrow>
           err = Some e \<and> last effs = PersistFailed i st e)) \<and>
   (\<forall>k task rest s'. k < length (ticks w) \<and> ticks w ! k = AwaitUpdate task rest \<and>
        update db (task_id task) RUNNING (store w) = Inr s' \<longrightarrow>
      store (tickResumes db k w) = s' \<and>
      workerPool (tickResumes db k w) =
        snd (executeTask (task\<lparr>status := RUNNING\<rparr>) (workerPool w))) \<and>
   (\<forall>k task rest e. k < length (ticks w) \<and> ticks w ! k = AwaitUpdate task rest \<and>
        update db (task_id task) RUNNING (store w) = Inl e \<longrightarrow>
      workerPool (tickResumes db k w) = workerPool w \<and>
      store (tickResumes db k w) = store w \<and>
      ticks (tickResumes db k w) = removeAt k (ticks w)) \<and>
   (writes_status db persisted \<longrightarrow>
      not_behind persisted (loop_run db (start db (new_TaskScheduler m st0)) evs))"
proof (intro conjI allI impI)
  obtain err effs w' where r: "processEligibleTasks db w = (err, effs, w')"
    by (cases "processEligibleTasks db w") auto
  show "case processEligibleTasks db w of
      (err, effs, w') \<Rightarrow>
        write_then_submit effs \<and>
        workerPool w' = foldl (\<lambda>p t. snd (executeTask t p)) (workerPool w) (submitted effs) \<and>
        (\<forall>i st e. PersistFailed i st e \<in> set effs \<longrightarrow>
           err = Some e \<and> last effs = PersistFailed i st e)"
    unfolding r prod.case by (rule tick_write_first [OF r])
next
  fix k task rest s'
  assume a: "k < length (ticks w) \<and> ticks w ! k = AwaitUpdate task rest \<and>
      update db (task_id task) RUNNING (store w) = Inr s'"
  then show "store (tickResumes db k w) = s'"
    using tickResumes_update_done [of k w task rest db s'] by blast
  from a show "workerPool (tickResumes db k w) =
      snd (executeTask (task\<lparr>status := RUNNING\<rparr>) (workerPool w))"
    using tickResumes_update_done [of k w task rest db s'] by blast
next
  fix k task rest e
  assume a: "k < length (ticks w) \<and> ticks w ! k = AwaitUpdate task rest \<and>
      update db (task_id task) RUNNING (store w) = Inl e"
  then show "workerPool (tickResumes db k w) = workerPool w"
    using tickResumes_update_failed [of k w task rest db e] by blast
  from a show "store (tickResumes db k w) = store w"
    using tickResumes_update_failed [of k w task rest db e] by blast
  from a show "ticks (tickResumes db k w) = removeAt k (ticks w)"
    using tickResumes_update_failed [of k w task rest db e] by blast
next
  assume "writes_status db persisted"
  then show "not_behind persisted (loop_run db (start db (new_TaskScheduler m st0)) evs)"
    using not_behind_start by (rule not_behind_run)
qed

theorem status_written_before_submission_witness:
  "writes_status (flaky_prisma [0x4F]) memory_status \<and>
   fst (processEligibleTasks (flaky_prisma [0x4F]) (new_TaskScheduler 3 unchecked_rows)) =
     Some ConnectionError \<and>
   write_then_submit (fst (snd
     (processEligibleTasks (flaky_prisma [0x4F]) (new_TaskScheduler 3 unchecked_rows)))) \<and>
   map task_id (submitted (fst (snd
     (processEligibleTasks (flaky_prisma [0x4F]) (new_TaskScheduler 3 unchecked_rows))))) =
     [[0x4E]] \<and>
   last (fst (snd
     (processEligibleTasks (flaky_prisma [0x4F]) (new_TaskScheduler 3 unchecked_rows)))) =
     PersistFailed [0x4F] RUNNING ConnectionError \<and>
   getRunningTaskIds (workerPool (snd (snd
     (processEligibleTasks (flaky_prisma [0x4F]) (new_TaskScheduler 3 unchecked_rows))))) =
     [[0x4E]] \<and>
   memory_status (store (loop_run (flaky_prisma [0x4F])
       (start (flaky_prisma [0x4F]) (new_TaskScheduler 3 unchecked_rows))
       [TickResumes 0, TickResumes 0])) [0x4E] = Some RUNNING \<and>
   getRunningTaskIds (workerPool (loop_run (flaky_prisma [0x4F])
       (start (flaky_prisma [0x4F]) (new_TaskScheduler 3 unchecked_rows))
       [TickResumes 0, TickResumes 0])) = [[0x4E]] \<and>
   workerPool (loop_run (flaky_prisma [0x4F])
       (start (flaky_prisma [0x4F]) (new_TaskScheduler 3 unchecked_rows))
       [TickResumes 0, TickResumes 0, TickResumes 0]) =
     workerPool (loop_run (flaky_prisma [0x4F])
       (start (flaky_prisma [0x4F]) (new_TaskScheduler 3 unchecked_rows))
       [TickResumes 0, TickResumes 0]) \<and>
   store (loop_run (flaky_prisma [0x4F])
       (start (flaky_prisma [0x4F]) (new_TaskScheduler 3 unchecked_rows))
       [TickResumes 0, TickResumes 0, TickResumes 0]) =
     store (loop_run (flaky_prisma [0x4F])
       (start (flaky_prisma [0x4F]) (new_TaskScheduler 3 unchecked_rows))
       [TickResumes 0, TickResumes 0]) \<and>
   ticks (loop_run (flaky_prisma [0x4F])
       (start (flaky_prisma [0x4F]) (new_TaskScheduler 3 unchecked_rows))
       [TickResumes 0, TickResumes 0, TickResumes 0]) = [] \<and>
   getRunningTaskIds (workerPool (loop_run (flaky_prisma [0x4F])
       (start (flaky_prisma [0x4F]) (new_TaskScheduler 1 late_early_rows))
       [TickResumes 0, TickResumes 0, TaskTimeoutFires 0, PollTimeoutFires 0,
        CompletionResumes 0, TickResumes 0, TickResumes 0, TickResumes 0,
        TaskTimeoutFires 1, TickResumes 0, CompletionResumes 0])) = [[0x45]] \<and>
   memory_status (store (loop_run (flaky_prisma [0x4F])
       (start (flaky_prisma [0x4F]) (new_TaskScheduler 1 late_early_rows))
       [TickResumes 0, TickResumes 0, TaskTimeoutFires 0, PollTimeoutFires 0,
        CompletionResumes 0, TickResumes 0, TickResumes 0, TickResumes 0,
        TaskTimeoutFires 1, TickResumes 0, CompletionResumes 0])) [0x45] = Some COMPLETED \<and>
   not_behind memory_status (loop_run (flaky_prisma [0x4F])
       (start (flaky_prisma [0x4F]) (new_TaskScheduler 1 late_early_rows))
       [TickResumes 0, TickResumes 0, TaskTimeoutFires 0, PollTimeoutFires 0,
        CompletionResumes 0, TickResumes 0, TickResumes 0, TickResumes 0,
        TaskTimeoutFires 1, TickResumes 0, CompletionResumes 0])"
proof -
  let ?db = "flaky_prisma [0x4F]"
  let ?w = "new_TaskScheduler 3 unchecked_rows :: db_task list system"
  let ?w1 = "loop_run ?db (start ?db ?w) [TickResumes 0]"
  let ?w2 = "loop_run ?db (start ?db ?w) [TickResumes 0, TickResumes 0]"
  let ?w3 = "loop_run ?db (start ?db ?w) [TickResumes 0, TickResumes 0, TickResumes 0]"
  let ?evs = "[TickResumes 0, TickResumes 0, TaskTimeoutFires 0, PollTimeoutFires 0,
        CompletionResumes 0, TickResumes 0, TickResumes 0, TickResumes 0,
        TaskTimeoutFires 1, TickResumes 0, CompletionResumes 0]"
  let ?run = "loop_run ?db (start ?db (new_TaskScheduler 1 late_early_rows)) ?evs"
  have c: "writes_status ?db memory_status" by (rule writes_status_flaky)
  have e: "fst (processEligibleTasks ?db ?w) = Some ConnectionError" by code_simp
  have s: "map task_id (submitted (fst (snd (processEligibleTasks ?db ?w)))) = [[0x4E]]"
    by code_simp
  have l: "last (fst (snd (processEligibleTasks ?db ?w))) =
      PersistFailed [0x4F] RUNNING ConnectionError" by code_simp
  have g: "getRunningTaskIds (workerPool (snd (snd (processEligibleTasks ?db ?w)))) = [[0x4E]]"
    by code_simp
  have m2: "memory_status (store ?w2) [0x4E] = Some RUNNING" by code_simp
  have g2: "getRunningTaskIds (workerPool ?w2) = [[0x4E]]" by code_simp
  have t3: "ticks ?w3 = []" by code_simp
  have gr: "getRunningTaskIds (workerPool ?run) = [[0x45]]" by code_simp
  have mr: "memory_status (store ?run) [0x45] = Some COMPLETED" by code_simp
  have w: "write_then_submit (fst (snd (processEligibleTasks ?db ?w)))"
    using status_written_before_submission
      [where db = ?db and w = ?w and persisted = memory_status, THEN conjunct1]
    by (cases "processEligibleTasks ?db ?w") simp
  have one: "0 < length (ticks ?w1) \<and>
      (case ticks ?w1 ! 0 of
         AwaitFindMany \<Rightarrow> False
       | AwaitUpdate task rest \<Rightarrow>
           (case update ?db (task_id task) RUNNING (store ?w1) of
              Inl e \<Rightarrow> False | Inr s' \<Rightarrow> True))"
    by code_simp
  then obtain task rest s' where u1: "0 < length (ticks ?w1) \<and>
      ticks ?w1 ! 0 = AwaitUpdate task rest \<and>
      update ?db (task_id task) RUNNING (store ?w1) = Inr s'"
    by (auto split: tick.splits sum.splits)
  have d: "store (tickResumes ?db 0 ?w1) = s' \<and>
      workerPool (tickResumes ?db 0 ?w1) =
        snd (executeTask (task\<lparr>status := RUNNING\<rparr>) (workerPool ?w1))"
    using status_written_before_submission
      [where db = ?db and w = ?w1 and persisted = memory_status,
       THEN conjunct2, THEN conjunct1] u1
    by blast
  have two: "0 < length (ticks ?w2) \<and>
      (case ticks ?w2 ! 0 of
         AwaitFindMany \<Rightarrow> False
       | AwaitUpdate task rest \<Rightarrow>
           (case update ?db (task_id task) RUNNING (store ?w2) of
              Inl e \<Rightarrow> True | Inr s' \<Rightarrow> False))"
    by code_simp
  then obtain task2 rest2 e2 where u2: "0 < length (ticks ?w2) \<and>
      ticks ?w2 ! 0 = AwaitUpdate task2 rest2 \<and>
      update ?db (task_id task2) RUNNING (store ?w2) = Inl e2"
    by (auto split: tick.splits sum.splits)
  have w3: "?w3 = tickResumes ?db 0 ?w2" by (simp add: loop_run_def)
  have f: "workerPool (tickResumes ?db 0 ?w2) = workerPool ?w2 \<and>
      store (tickResumes ?db 0 ?w2) = store ?w2 \<and>
      ticks (tickResumes ?db 0 ?w2) = removeAt 0 (ticks ?w2)"
    using status_written_before_submission
      [where db = ?db and w = ?w2 and persisted = memory_status,
       THEN conjunct2, THEN conjunct2, THEN conjunct1] u2
    by blast
  have nb: "not_behind memory_status ?run"
    using status_written_before_submission
      [where db = ?db and persisted = memory_status and m = 1 and ?st0.0 = late_early_rows
         and evs = ?evs, THEN conjunct2, THEN conjunct2, THEN conjunct2] c
    by (rule mp)
  show ?thesis
    unfolding w3 using c e w s l g m2 g2 f t3 [unfolded w3] gr mr nb
    by (intro conjI) simp_all
qed

end
